theory Spec2Isabelle
  imports Main "HOL-Library.AList"
begin

section \<open>Data model\<close>

text \<open>
  The TypeScript interfaces of \<^verbatim>\<open>@/types/graph\<close> as they are used by
  \<^verbatim>\<open>GraphAlgorithms\<close>: a user has an \<^verbatim>\<open>id\<close> and a \<^verbatim>\<open>name\<close>, a friendship a
  \<^verbatim>\<open>source\<close> and a \<^verbatim>\<open>target\<close>, both user ids. Ids are JavaScript strings.
\<close>

record User =
  id_user :: string
  name :: string

record Friendship =
  source :: string
  target :: string

record PathResult =
  path :: "string list"
  distance :: int

record Community =
  id_community :: nat
  users_community :: "string list"
  color :: string

record Suggestion =
  userId :: string
  mutualCount :: int
  mutualFriends :: "string list"

text \<open>
  What a call of a method does: it returns a value, it throws, or it does not return.
  The three error kinds are the ones the specification names.
\<close>

datatype error = UnknownNode | InvalidEdge | DuplicateEdge

datatype 'a outcome = Returns 'a | Throws error | Diverges

subsection \<open>JavaScript \<^verbatim>\<open>Set\<close> and \<^verbatim>\<open>Map\<close>, in insertion order\<close>

text \<open>
  A \<^verbatim>\<open>Set<string>\<close> is the list of its members in insertion order; \<^verbatim>\<open>add\<close> appends a
  new member and leaves the set alone when the member is present. A \<^verbatim>\<open>Map\<close> is an
  association list in insertion order: \<^verbatim>\<open>get\<close> is \<^const>\<open>map_of\<close>, and \<^verbatim>\<open>set\<close> is
  \<^const>\<open>AList.update\<close>, which overwrites the value of a present key in place and appends
  a new key.
\<close>

definition add_Set :: "'a \<Rightarrow> 'a list \<Rightarrow> 'a list" where
  "add_Set x xs = (if x \<in> set xs then xs else xs @ [x])"

type_synonym adjacency = "(string \<times> string list) list"

text \<open>\<^verbatim>\<open>adj.get(k)?.add(v)\<close>: nothing happens when \<^verbatim>\<open>k\<close> has no entry.\<close>

definition add_neighbor :: "adjacency \<Rightarrow> string \<Rightarrow> string \<Rightarrow> adjacency" where
  "add_neighbor adj k v =
     (case map_of adj k of
        None \<Rightarrow> adj
      | Some s \<Rightarrow> AList.update k (add_Set v s) adj)"

text \<open>\<^verbatim>\<open>adj.get(x) || new Set()\<close>\<close>

definition neighbors :: "adjacency \<Rightarrow> string \<Rightarrow> string list" where
  "neighbors adj x = (case map_of adj x of None \<Rightarrow> [] | Some s \<Rightarrow> s)"

section \<open>Construction\<close>

text \<open>The two callbacks of \<^verbatim>\<open>forEach\<close> in \<^verbatim>\<open>buildAdjacencyList\<close>, and the method.\<close>

definition init_user :: "User \<Rightarrow> adjacency \<Rightarrow> adjacency" where
  "init_user user adj = AList.update (id_user user) [] adj"

definition add_friendship :: "Friendship \<Rightarrow> adjacency \<Rightarrow> adjacency" where
  "add_friendship friendship adj =
     add_neighbor (add_neighbor adj (source friendship) (target friendship))
       (target friendship) (source friendship)"

definition buildAdjacencyList :: "User list \<Rightarrow> Friendship list \<Rightarrow> adjacency" where
  "buildAdjacencyList us fs = fold add_friendship fs (fold init_user us [])"

record GraphAlgorithms =
  users :: "User list"
  friendships :: "Friendship list"
  adjacencyList :: adjacency

text \<open>
  The constructor stores the two arrays and the index built from them. It has no
  \<^verbatim>\<open>throw\<close> and calls nothing that throws, so it returns the object on every input.
\<close>

definition engine :: "User list \<Rightarrow> Friendship list \<Rightarrow> GraphAlgorithms" where
  "engine us fs = \<lparr>users = us, friendships = fs, adjacencyList = buildAdjacencyList us fs\<rparr>"

definition constructor :: "User list \<Rightarrow> Friendship list \<Rightarrow> GraphAlgorithms outcome" where
  "constructor us fs = Returns (engine us fs)"

text \<open>
  The graph the two lists describe: \<open>is_edge fs x y\<close> says that the friendship list
  holds the unordered pair of \<open>x\<close> and \<open>y\<close>; \<open>adj_rel adj\<close> is the relation the
  adjacency index stores, and a walk is a list of ids in which each id is followed by one
  of its stored neighbors.
\<close>

definition user_ids :: "User list \<Rightarrow> string set" where
  "user_ids us = id_user ` set us"

definition is_edge :: "Friendship list \<Rightarrow> string \<Rightarrow> string \<Rightarrow> bool" where
  "is_edge fs x y =
     (\<exists>f \<in> set fs. (source f = x \<and> target f = y) \<or> (source f = y \<and> target f = x))"

definition adj_rel :: "adjacency \<Rightarrow> (string \<times> string) set" where
  "adj_rel adj = {(x, y). y \<in> set (neighbors adj x)}"

definition walk :: "adjacency \<Rightarrow> string list \<Rightarrow> bool" where
  "walk adj p = (p \<noteq> [] \<and> successively (\<lambda>x y. y \<in> set (neighbors adj x)) p)"

text \<open>The sample data of \<^verbatim>\<open>graphData.ts\<close> (\<^verbatim>\<open>initialData\<close>).\<close>

definition initial_users :: "User list" where
  "initial_users =
     [\<lparr>id_user = ''1'', name = ''Alice''\<rparr>, \<lparr>id_user = ''2'', name = ''Bob''\<rparr>,
      \<lparr>id_user = ''3'', name = ''Charlie''\<rparr>, \<lparr>id_user = ''4'', name = ''Diana''\<rparr>,
      \<lparr>id_user = ''5'', name = ''Eve''\<rparr>, \<lparr>id_user = ''6'', name = ''Frank''\<rparr>]"

definition initial_friendships :: "Friendship list" where
  "initial_friendships =
     [\<lparr>source = ''1'', target = ''2''\<rparr>, \<lparr>source = ''2'', target = ''3''\<rparr>,
      \<lparr>source = ''3'', target = ''4''\<rparr>, \<lparr>source = ''1'', target = ''5''\<rparr>,
      \<lparr>source = ''5'', target = ''6''\<rparr>]"

section \<open>findMutualFriends\<close>

text \<open>
  The body of the loop over \<^verbatim>\<open>this.users\<close>. \<^verbatim>\<open>Array.from(userFriends).filter(...)\<close>
  keeps the insertion order of \<^verbatim>\<open>userFriends\<close>.
\<close>

definition suggest :: "adjacency \<Rightarrow> string \<Rightarrow> string list \<Rightarrow> User \<Rightarrow> Suggestion list \<Rightarrow> Suggestion list" where
  "suggest adj uid userFriends user suggestions =
     (if id_user user = uid \<or> id_user user \<in> set userFriends then suggestions
      else
        let otherFriends = neighbors adj (id_user user);
            mutual = filter (\<lambda>friend. friend \<in> set otherFriends) userFriends
        in if length mutual > 0
           then suggestions @
                  [\<lparr>userId = id_user user, mutualCount = int (length mutual),
                    mutualFriends = mutual\<rparr>]
           else suggestions)"

text \<open>
  \<^verbatim>\<open>suggestions.sort((a, b) => b.mutualCount - a.mutualCount)\<close>: \<^verbatim>\<open>Array.prototype.sort\<close>
  is stable, and the comparator orders by \<^verbatim>\<open>mutualCount\<close> descending; the stable sort on
  the negated count gives the same array.
\<close>

definition findMutualFriends :: "GraphAlgorithms \<Rightarrow> string \<Rightarrow> Suggestion list outcome" where
  "findMutualFriends g uid =
     (let userFriends = neighbors (adjacencyList g) uid;
          suggestions = fold (suggest (adjacencyList g) uid userFriends) (users g) []
      in Returns (sort_key (\<lambda>s. - mutualCount s) suggestions))"

section \<open>Basic facts about the index\<close>

lemma set_add_Set [simp]: "set (add_Set x xs) = insert x (set xs)"
  by (auto simp: add_Set_def)

lemma distinct_add_Set [simp]: "distinct (add_Set x xs) = distinct xs"
  by (auto simp: add_Set_def)

lemma neighbors_None: "map_of adj x = None \<Longrightarrow> neighbors adj x = []"
  by (simp add: neighbors_def)

lemma neighbors_Some: "map_of adj x = Some s \<Longrightarrow> neighbors adj x = s"
  by (simp add: neighbors_def)

text \<open>Every stored neighbor is a member of one of the finitely many stored sets.\<close>

definition all_neighbors :: "adjacency \<Rightarrow> string set" where
  "all_neighbors adj = (\<Union>x. set (neighbors adj x))"

lemma finite_all_neighbors: "finite (all_neighbors adj)"
proof -
  have "set (neighbors adj x) \<subseteq> (\<Union>p \<in> set adj. set (snd p))" for x
  proof (cases "map_of adj x")
    case None
    then show ?thesis by (simp add: neighbors_None)
  next
    case (Some s)
    then have "(x, s) \<in> set adj" by (rule map_of_SomeD)
    then show ?thesis using Some by (force simp: neighbors_Some)
  qed
  then have "all_neighbors adj \<subseteq> (\<Union>p \<in> set adj. set (snd p))"
    unfolding all_neighbors_def by blast
  moreover have "finite (\<Union>p \<in> set adj. set (snd p))" by simp
  ultimately show ?thesis by (rule finite_subset)
qed

lemma neighbors_subset_all: "set (neighbors adj x) \<subseteq> all_neighbors adj"
  by (auto simp: all_neighbors_def)

section \<open>findShortestPath\<close>

text \<open>
  The state of the breadth-first search: the \<^verbatim>\<open>queue\<close> array, the \<^verbatim>\<open>visited\<close> set and the
  \<^verbatim>\<open>parent\<close> map.
\<close>

record bfs_state =
  queue :: "string list"
  visited :: "string list"
  parent :: "(string \<times> string) list"

text \<open>
  The reconstruction loop \<^verbatim>\<open>while (node) { path.unshift(node); node = parent.get(node)! }\<close>.
  \<^verbatim>\<open>node\<close> is a string or \<^verbatim>\<open>undefined\<close> (\<open>None\<close>); the loop condition is JavaScript
  truthiness, which is false for \<^verbatim>\<open>undefined\<close> and for the empty string. The loop need not
  end on an arbitrary parent map, so the result is an option: \<open>None\<close> when it runs
  forever.
\<close>

partial_function (option) reconstruct ::
  "(string \<times> string) list \<Rightarrow> string option \<Rightarrow> string list \<Rightarrow> string list option" where
  "reconstruct par node p =
     (case node of
        None \<Rightarrow> Some p
      | Some n \<Rightarrow> if n = [] then Some p else reconstruct par (map_of par n) (n # p))"

declare reconstruct.simps [code]

text \<open>\<^verbatim>\<open>return { path, distance: path.length - 1 }\<close>, once the reconstruction has ended.\<close>

definition path_result :: "string list option \<Rightarrow> PathResult option outcome" where
  "path_result r =
     (case r of
        None \<Rightarrow> Diverges
      | Some p \<Rightarrow> Returns (Some \<lparr>path = p, distance = int (length p) - 1\<rparr>))"

text \<open>
  The \<^verbatim>\<open>for\<close> loop over the neighbors of \<^verbatim>\<open>current\<close>: \<open>Inl\<close> when the \<^verbatim>\<open>return\<close> inside
  the loop is reached, \<open>Inr\<close> with the new state when the loop runs to its end.
\<close>

fun bfs_neighbors ::
  "string \<Rightarrow> string \<Rightarrow> string list \<Rightarrow> bfs_state \<Rightarrow> (PathResult option outcome) + bfs_state" where
  "bfs_neighbors endId current [] st = Inr st"
| "bfs_neighbors endId current (neighbor # rest) st =
     (if neighbor \<notin> set (visited st) then
        let st' = st\<lparr>visited := add_Set neighbor (visited st),
                      parent := AList.update neighbor current (parent st),
                      queue := queue st @ [neighbor]\<rparr>
        in if neighbor = endId
           then Inl (path_result (reconstruct (parent st') (Some endId) []))
           else bfs_neighbors endId current rest st'
      else bfs_neighbors endId current rest st)"

text \<open>
  The \<^verbatim>\<open>while (queue.length > 0)\<close> loop. It ends on every state: each pass takes one id
  from the queue, and each id it adds is a stored neighbor that was not visited before.
\<close>

definition bfs_measure :: "adjacency \<Rightarrow> bfs_state \<Rightarrow> nat" where
  "bfs_measure adj st = 2 * card (all_neighbors adj - set (visited st)) + length (queue st)"

lemma bfs_neighbors_measure:
  "bfs_neighbors endId current ns st = Inr st' \<Longrightarrow> set ns \<subseteq> all_neighbors adj \<Longrightarrow>
     bfs_measure adj st' \<le> bfs_measure adj st"
proof (induction ns arbitrary: st)
  case Nil
  then show ?case by simp
next
  case (Cons n ns)
  show ?case
  proof (cases "n \<in> set (visited st)")
    case True
    with Cons show ?thesis by simp
  next
    case False
    let ?st = "st\<lparr>visited := add_Set n (visited st),
                   parent := AList.update n current (parent st),
                   queue := queue st @ [n]\<rparr>"
    from Cons.prems False have r: "bfs_neighbors endId current ns ?st = Inr st'"
      by (auto simp: Let_def split: if_splits)
    from Cons.IH[OF r] Cons.prems(2) have "bfs_measure adj st' \<le> bfs_measure adj ?st" by simp
    moreover have "all_neighbors adj - insert n (set (visited st)) =
        (all_neighbors adj - set (visited st)) - {n}"
      by auto
    moreover have "n \<in> all_neighbors adj - set (visited st)" using False Cons.prems(2) by auto
    then have "card ((all_neighbors adj - set (visited st)) - {n}) <
        card (all_neighbors adj - set (visited st))"
      by (intro card_Diff1_less) (auto intro: finite_all_neighbors)
    ultimately show ?thesis by (simp add: bfs_measure_def)
  qed
qed

function bfs_loop :: "adjacency \<Rightarrow> string \<Rightarrow> bfs_state \<Rightarrow> PathResult option outcome" where
  "bfs_loop adj endId st =
     (case queue st of
        [] \<Rightarrow> Returns None
      | current # rest \<Rightarrow>
          (case bfs_neighbors endId current (neighbors adj current) (st\<lparr>queue := rest\<rparr>) of
             Inl r \<Rightarrow> r
           | Inr st' \<Rightarrow> bfs_loop adj endId st'))"
  by pat_completeness auto
termination
proof (relation "measure (\<lambda>(adj, endId, st). bfs_measure adj st)")
  show "wf (measure (\<lambda>(adj, endId, st). bfs_measure adj st))" by simp
next
  fix adj endId st current rest st'
  assume q: "queue st = current # rest"
    and r: "bfs_neighbors endId current (neighbors adj current) (st\<lparr>queue := rest\<rparr>) = Inr st'"
  have "bfs_measure adj st' \<le> bfs_measure adj (st\<lparr>queue := rest\<rparr>)"
    by (rule bfs_neighbors_measure[OF r neighbors_subset_all])
  also have "\<dots> < bfs_measure adj st" using q by (simp add: bfs_measure_def)
  finally show "((adj, endId, st'), (adj, endId, st)) \<in> measure (\<lambda>(adj, endId, st). bfs_measure adj st)"
    by simp
qed

declare bfs_loop.simps [simp del]

definition findShortestPath :: "GraphAlgorithms \<Rightarrow> string \<Rightarrow> string \<Rightarrow> PathResult option outcome" where
  "findShortestPath g startId endId =
     (if startId = endId then Returns (Some \<lparr>path = [startId], distance = 0\<rparr>)
      else bfs_loop (adjacencyList g) endId
             \<lparr>queue = [startId], visited = [startId], parent = []\<rparr>)"

section \<open>findCommunities\<close>

text \<open>
  \<^verbatim>\<open>dfsVisit\<close> keeps its stack in an array and pushes and pops at the end of it; the
  model keeps the stack as a list whose head is the top, so pushing the unvisited
  neighbors in iteration order leaves the last of them on top. \<^verbatim>\<open>visited\<close> is the set
  \<^verbatim>\<open>findCommunities\<close> shares with every call, so the loop returns it with the community.
\<close>

definition push_unvisited :: "string list \<Rightarrow> string list \<Rightarrow> string list \<Rightarrow> string list" where
  "push_unvisited vis ns stack = fold (\<lambda>neighbor st. if neighbor \<notin> set vis then neighbor # st else st) ns stack"

lemma set_push_unvisited: "set (push_unvisited vis ns stack) = (set ns - set vis) \<union> set stack"
  unfolding push_unvisited_def by (induction ns arbitrary: stack) auto

definition dfs_todo :: "adjacency \<Rightarrow> string list \<Rightarrow> string list \<Rightarrow> nat" where
  "dfs_todo adj stack vis = card ((all_neighbors adj \<union> set stack) - set vis)"

function dfs_loop :: "adjacency \<Rightarrow> string list \<Rightarrow> string list \<Rightarrow> string list \<Rightarrow> string list \<times> string list" where
  "dfs_loop adj [] vis community = (community, vis)"
| "dfs_loop adj (current # stack) vis community =
     (if current \<notin> set vis then
        dfs_loop adj (push_unvisited (add_Set current vis) (neighbors adj current) stack)
          (add_Set current vis) (community @ [current])
      else dfs_loop adj stack vis community)"
  by pat_completeness auto
termination
proof (relation "measures [\<lambda>(adj, stack, vis, community). dfs_todo adj stack vis,
                            \<lambda>(adj, stack, vis, community). length stack]")
  show "wf (measures [\<lambda>(adj, stack, vis, community). dfs_todo adj stack vis,
                            \<lambda>(adj, stack, vis, community). length stack])" by simp
next
  fix adj :: adjacency and current :: string and stack vis community :: "string list"
  assume nv: "current \<notin> set vis"
  let ?A = "(all_neighbors adj \<union> set (push_unvisited (add_Set current vis) (neighbors adj current) stack)) - set (add_Set current vis)"
  let ?B = "(all_neighbors adj \<union> set (current # stack)) - set vis"
  have "?A \<subseteq> ?B - {current}"
    using neighbors_subset_all[of adj current] by (auto simp: set_push_unvisited)
  moreover have "current \<in> ?B" using nv by simp
  moreover have "finite ?B" by (simp add: finite_all_neighbors)
  ultimately have "card ?A < card ?B"
    by (meson card_Diff1_less card_mono finite_Diff le_less_trans)
  then show "((adj, push_unvisited (add_Set current vis) (neighbors adj current) stack, add_Set current vis, community @ [current]),
        (adj, current # stack, vis, community)) \<in> measures [\<lambda>(adj, stack, vis, community). dfs_todo adj stack vis,
                            \<lambda>(adj, stack, vis, community). length stack]"
    by (simp add: dfs_todo_def)
next
  fix adj :: adjacency and current :: string and stack vis community :: "string list"
  assume "\<not> current \<notin> set vis"
  then have "(all_neighbors adj \<union> set stack) - set vis = (all_neighbors adj \<union> set (current # stack)) - set vis"
    by auto
  then show "((adj, stack, vis, community), (adj, current # stack, vis, community)) \<in> measures [\<lambda>(adj, stack, vis, community). dfs_todo adj stack vis,
                            \<lambda>(adj, stack, vis, community). length stack]"
    by (simp add: dfs_todo_def)
qed

declare dfs_loop.simps [simp del]

definition dfsVisit :: "adjacency \<Rightarrow> string \<Rightarrow> string list \<Rightarrow> string list \<times> string list" where
  "dfsVisit adj uid vis = dfs_loop adj [uid] vis []"

definition colors :: "string list" where
  "colors = [''#FF6B6B'', ''#4ECDC4'', ''#45B7D1'', ''#96CEB4'', ''#FFEAA7'', ''#DDA0DD'', ''#98D8C8'', ''#F7DC6F'']"

fun communities_loop :: "adjacency \<Rightarrow> User list \<Rightarrow> string list \<Rightarrow> Community list \<Rightarrow> nat \<Rightarrow> Community list" where
  "communities_loop adj [] vis communities communityId = communities"
| "communities_loop adj (user # rest) vis communities communityId =
     (if id_user user \<notin> set vis then
        (case dfsVisit adj (id_user user) vis of
           (community, vis') \<Rightarrow>
             if length community > 0
             then communities_loop adj rest vis'
                    (communities @ [\<lparr>id_community = communityId, users_community = community,
                                       color = colors ! (communityId mod length colors)\<rparr>])
                    (communityId + 1)
             else communities_loop adj rest vis' communities communityId)
      else communities_loop adj rest vis communities communityId)"

definition findCommunities :: "GraphAlgorithms \<Rightarrow> Community list outcome" where
  "findCommunities g = Returns (communities_loop (adjacencyList g) (users g) [] [] 0)"

section \<open>findCommunitiesUnionFind\<close>
















section \<open>The index built at construction\<close>

lemma map_of_add_neighbor:
  "map_of (add_neighbor adj k v) x =
     (if x = k then map_option (add_Set v) (map_of adj k) else map_of adj x)"
  by (cases "map_of adj k") (simp_all add: add_neighbor_def update_conv')

lemma neighbors_add_neighbor:
  "neighbors (add_neighbor adj k v) x =
     (if x = k \<and> map_of adj k \<noteq> None then add_Set v (neighbors adj x) else neighbors adj x)"
  by (cases "map_of adj k"; cases "x = k") (auto simp: neighbors_def map_of_add_neighbor)

lemma is_edge_Nil [simp]: "is_edge [] x y = False"
  by (simp add: is_edge_def)

lemma is_edge_Cons:
  "is_edge (f # fs) x y =
     ((source f = x \<and> target f = y) \<or> (source f = y \<and> target f = x) \<or> is_edge fs x y)"
  by (auto simp: is_edge_def)

lemma is_edge_sym: "is_edge fs x y = is_edge fs y x"
  by (auto simp: is_edge_def)

lemma map_of_add_friendship_None:
  "(map_of (add_friendship f adj) x = None) = (map_of adj x = None)"
  by (simp add: add_friendship_def map_of_add_neighbor)

lemma set_neighbors_add_friendship:
  "map_of adj x \<noteq> None \<Longrightarrow> set (neighbors (add_friendship f adj) x) =
     set (neighbors adj x) \<union>
       {y. (source f = x \<and> target f = y) \<or> (source f = y \<and> target f = x)}"
  by (auto simp: add_friendship_def neighbors_add_neighbor map_of_add_neighbor)

lemma distinct_neighbors_add_friendship:
  "distinct (neighbors (add_friendship f adj) x) = distinct (neighbors adj x)"
  by (simp add: add_friendship_def neighbors_add_neighbor)

lemma neighbors_fold_edges:
  "set (neighbors (fold add_friendship fs adj) x) =
    (if map_of adj x = None then {} else set (neighbors adj x) \<union> {y. is_edge fs x y})"
proof (induction fs arbitrary: adj)
  case Nil
  show ?case by (cases "map_of adj x") (auto simp: neighbors_None)
next
  case (Cons f fs)
  show ?case
    by (cases "map_of adj x")
       (auto simp: Cons.IH map_of_add_friendship_None set_neighbors_add_friendship is_edge_Cons)
qed

lemma distinct_neighbors_fold_edges:
  "distinct (neighbors (fold add_friendship fs adj) x) = distinct (neighbors adj x)"
  by (induction fs arbitrary: adj) (simp_all add: distinct_neighbors_add_friendship)

lemma map_of_fold_users:
  "map_of (fold init_user us adj) x =
     (if x \<in> user_ids us then Some [] else map_of adj x)"
  by (induction us arbitrary: adj) (auto simp: update_conv' init_user_def user_ids_def)

lemma set_neighbors_build:
  "set (neighbors (buildAdjacencyList us fs) x) =
     (if x \<in> user_ids us then {y. is_edge fs x y} else {})"
  by (cases "x \<in> user_ids us")
     (auto simp: buildAdjacencyList_def neighbors_fold_edges map_of_fold_users neighbors_Some)

lemma distinct_neighbors_build: "distinct (neighbors (buildAdjacencyList us fs) x)"
  by (cases "x \<in> user_ids us")
     (simp_all add: buildAdjacencyList_def distinct_neighbors_fold_edges
        map_of_fold_users neighbors_Some neighbors_None)

lemma neighbors_build_absent: "x \<notin> user_ids us \<Longrightarrow> neighbors (buildAdjacencyList us fs) x = []"
  using set_neighbors_build[of us fs x] by simp

text \<open>The index has an entry for exactly the ids of the node list.\<close>

lemma map_of_fold_edges_None:
  "(map_of (fold add_friendship fs adj) x = None) = (map_of adj x = None)"
  by (induction fs arbitrary: adj) (simp_all add: map_of_add_friendship_None)

lemma map_of_build_None:
  "(map_of (buildAdjacencyList us fs) x = None) = (x \<notin> user_ids us)"
  by (simp add: buildAdjacencyList_def map_of_fold_edges_None map_of_fold_users)

lemma adjacencyList_engine [simp]: "adjacencyList (engine us fs) = buildAdjacencyList us fs"
  and users_engine [simp]: "users (engine us fs) = us"
  and friendships_engine [simp]: "friendships (engine us fs) = fs"
  by (simp_all add: engine_def)

text \<open>
  Claim C9, as amended. The index is symmetric on the ids of the node list: for every
  friendship, each endpoint that is in the node list has the other endpoint among its
  stored neighbors, and for two ids of the node list, \<open>y\<close> is a stored neighbor of \<open>x\<close>
  exactly when \<open>x\<close> is a stored neighbor of \<open>y\<close>. An id outside the node list has no
  entry in the index (\<^verbatim>\<open>adj.get\<close> is \<^verbatim>\<open>undefined\<close> for it), whatever the friendships say.
\<close>

theorem adjacency_symmetric_on_present:
  "(\<forall>f \<in> set fs.
      (source f \<in> user_ids us \<longrightarrow>
         target f \<in> set (neighbors (buildAdjacencyList us fs) (source f))) \<and>
      (target f \<in> user_ids us \<longrightarrow>
         source f \<in> set (neighbors (buildAdjacencyList us fs) (target f)))) \<and>
   (\<forall>x y. x \<in> user_ids us \<longrightarrow> y \<in> user_ids us \<longrightarrow>
      (y \<in> set (neighbors (buildAdjacencyList us fs) x) \<longleftrightarrow>
       x \<in> set (neighbors (buildAdjacencyList us fs) y))) \<and>
   (\<forall>x. x \<notin> user_ids us \<longrightarrow> map_of (buildAdjacencyList us fs) x = None)"
  by (auto simp: set_neighbors_build is_edge_def map_of_build_None)

text \<open>
  The sample data: Alice and Bob are friends, and each is stored with the other; the
  unknown id \<^verbatim>\<open>'9'\<close> has no entry.
\<close>

theorem adjacency_symmetric_on_present_witness:
  "\<lparr>source = ''1'', target = ''2''\<rparr> \<in> set initial_friendships \<and>
   ''1'' \<in> user_ids initial_users \<and> ''2'' \<in> user_ids initial_users \<and>
   ''2'' \<in> set (neighbors (buildAdjacencyList initial_users initial_friendships) ''1'') \<and>
   ''1'' \<in> set (neighbors (buildAdjacencyList initial_users initial_friendships) ''2'') \<and>
   ''9'' \<notin> user_ids initial_users \<and>
   map_of (buildAdjacencyList initial_users initial_friendships) ''9'' = None"
proof -
  have f: "\<lparr>source = ''1'', target = ''2''\<rparr> \<in> set initial_friendships"
    by (simp add: initial_friendships_def)
  have u: "''1'' \<in> user_ids initial_users" "''2'' \<in> user_ids initial_users"
    "''9'' \<notin> user_ids initial_users"
    by (simp_all add: initial_users_def user_ids_def)
  from adjacency_symmetric_on_present[of initial_friendships initial_users] f u
  show ?thesis by fastforce
qed

text \<open>
  Claim C9 as stated fails when a friendship names an id that is not in the node list:
  \<^verbatim>\<open>adj.get(target)?.add(source)\<close> does nothing for the missing id, so \<^verbatim>\<open>'9'\<close> is a
  stored neighbor of \<^verbatim>\<open>'1'\<close> while \<^verbatim>\<open>'1'\<close> is not one of \<^verbatim>\<open>'9'\<close>.
\<close>

theorem adjacency_asymmetric_counterexample:
  "''9'' \<in> set (neighbors (buildAdjacencyList [\<lparr>id_user = ''1'', name = ''Alice''\<rparr>]
                              [\<lparr>source = ''1'', target = ''9''\<rparr>]) ''1'') \<and>
   ''1'' \<notin> set (neighbors (buildAdjacencyList [\<lparr>id_user = ''1'', name = ''Alice''\<rparr>]
                              [\<lparr>source = ''1'', target = ''9''\<rparr>]) ''9'')"
  by (simp add: set_neighbors_build user_ids_def is_edge_def)

text \<open>
  Claim C5, as amended. Construction returns an engine for every node list and every
  friendship list, and raises no error: the engine holds the two lists, and its index
  has an entry for exactly the ids of the node list, holding for each, without
  repetition, the ids it shares a friendship with; any other id has no entry (\<^verbatim>\<open>adjacencyList.get\<close> is \<^verbatim>\<open>undefined\<close>),
  so the neighbor set read for it is empty.
\<close>

theorem constructor_returns:
  "\<exists>g. constructor us fs = Returns g \<and> users g = us \<and> friendships g = fs \<and>
     (\<forall>x. set (neighbors (adjacencyList g) x) =
            (if x \<in> user_ids us then {y. is_edge fs x y} else {})) \<and>
     (\<forall>x. (map_of (adjacencyList g) x = None) = (x \<notin> user_ids us)) \<and>
     (\<forall>x \<in> user_ids us. \<exists>s. map_of (adjacencyList g) x = Some s \<and> distinct s \<and>
        set s = {y. is_edge fs x y})"
proof -
  have "\<exists>s. map_of (buildAdjacencyList us fs) x = Some s \<and> distinct s \<and>
        set s = {y. is_edge fs x y}" if x: "x \<in> user_ids us" for x
  proof -
    from x obtain s where s: "map_of (buildAdjacencyList us fs) x = Some s"
      using map_of_build_None[of us fs x] by auto
    then have n: "neighbors (buildAdjacencyList us fs) x = s" by (rule neighbors_Some)
    from distinct_neighbors_build[of us fs x] set_neighbors_build[of us fs x] x
    have "distinct s" "set s = {y. is_edge fs x y}" unfolding n by simp_all
    with s show ?thesis by blast
  qed
  then show ?thesis
    by (simp add: constructor_def set_neighbors_build map_of_build_None)
qed

text \<open>
  The sample data: the engine is returned, Alice (\<^verbatim>\<open>'1'\<close>) has an entry holding Bob and
  Eve, and the unknown id \<^verbatim>\<open>'9'\<close> has none.
\<close>

theorem constructor_returns_witness:
  "constructor initial_users initial_friendships =
     Returns (engine initial_users initial_friendships) \<and>
   ''1'' \<in> user_ids initial_users \<and> ''9'' \<notin> user_ids initial_users \<and>
   set (neighbors (adjacencyList (engine initial_users initial_friendships)) ''1'') =
     {y. is_edge initial_friendships ''1'' y} \<and>
   (\<exists>s. map_of (adjacencyList (engine initial_users initial_friendships)) ''1'' = Some s \<and>
        set s = {y. is_edge initial_friendships ''1'' y}) \<and>
   map_of (adjacencyList (engine initial_users initial_friendships)) ''9'' = None"
proof -
  have u: "''1'' \<in> user_ids initial_users" "''9'' \<notin> user_ids initial_users"
    by (simp_all add: initial_users_def user_ids_def)
  have c: "constructor initial_users initial_friendships =
     Returns (engine initial_users initial_friendships)"
    by (simp add: constructor_def)
  from constructor_returns[of initial_users initial_friendships] c u
  show ?thesis by auto
qed

text \<open>
  Claim C5 as stated fails: construction returns an engine for a friendship that names an
  id outside the node list, for a self-loop, and for one unordered pair given twice.
\<close>

theorem constructor_no_error_counterexample:
  "constructor [\<lparr>id_user = ''1'', name = ''Alice''\<rparr>] [\<lparr>source = ''1'', target = ''9''\<rparr>] =
     Returns \<lparr>users = [\<lparr>id_user = ''1'', name = ''Alice''\<rparr>],
              friendships = [\<lparr>source = ''1'', target = ''9''\<rparr>],
              adjacencyList = [(''1'', [''9''])]\<rparr> \<and>
   constructor [\<lparr>id_user = ''1'', name = ''Alice''\<rparr>] [\<lparr>source = ''1'', target = ''1''\<rparr>] =
     Returns \<lparr>users = [\<lparr>id_user = ''1'', name = ''Alice''\<rparr>],
              friendships = [\<lparr>source = ''1'', target = ''1''\<rparr>],
              adjacencyList = [(''1'', [''1''])]\<rparr> \<and>
   constructor [\<lparr>id_user = ''1'', name = ''Alice''\<rparr>, \<lparr>id_user = ''2'', name = ''Bob''\<rparr>]
      [\<lparr>source = ''1'', target = ''2''\<rparr>, \<lparr>source = ''2'', target = ''1''\<rparr>] =
     Returns \<lparr>users = [\<lparr>id_user = ''1'', name = ''Alice''\<rparr>, \<lparr>id_user = ''2'', name = ''Bob''\<rparr>],
              friendships = [\<lparr>source = ''1'', target = ''2''\<rparr>, \<lparr>source = ''2'', target = ''1''\<rparr>],
              adjacencyList = [(''1'', [''2'']), (''2'', [''1''])]\<rparr>"
  by (simp add: constructor_def engine_def buildAdjacencyList_def init_user_def add_friendship_def
        add_neighbor_def add_Set_def)

section \<open>Mutual-friend suggestions\<close>

text \<open>The suggestion the loop body builds for a candidate, and its list of shared friends.\<close>

definition mutual_of :: "adjacency \<Rightarrow> string list \<Rightarrow> string \<Rightarrow> string list" where
  "mutual_of adj userFriends c = filter (\<lambda>friend. friend \<in> set (neighbors adj c)) userFriends"

definition suggestion_for :: "adjacency \<Rightarrow> string list \<Rightarrow> string \<Rightarrow> Suggestion" where
  "suggestion_for adj userFriends c =
     \<lparr>userId = c, mutualCount = int (length (mutual_of adj userFriends c)),
      mutualFriends = mutual_of adj userFriends c\<rparr>"

lemma suggest_eq:
  "suggest adj uid userFriends user acc =
     (if id_user user \<noteq> uid \<and> id_user user \<notin> set userFriends \<and>
         mutual_of adj userFriends (id_user user) \<noteq> []
      then acc @ [suggestion_for adj userFriends (id_user user)] else acc)"
  by (simp add: suggest_def mutual_of_def suggestion_for_def Let_def)

lemma set_fold_suggest:
  "set (fold (suggest adj uid userFriends) us acc) =
     set acc \<union> suggestion_for adj userFriends `
       {c \<in> user_ids us. c \<noteq> uid \<and> c \<notin> set userFriends \<and> mutual_of adj userFriends c \<noteq> []}"
  by (induction us arbitrary: acc) (auto simp: suggest_eq user_ids_def)

lemma set_mutual_of: "set (mutual_of adj userFriends c) = set userFriends \<inter> set (neighbors adj c)"
  by (auto simp: mutual_of_def)

lemma length_mutual_of:
  "distinct userFriends \<Longrightarrow>
     length (mutual_of adj userFriends c) = card (set userFriends \<inter> set (neighbors adj c))"
  by (simp add: mutual_of_def distinct_length_filter Int_commute Collect_mem_eq)

text \<open>
  Claim C4. On the engine built from any node list and friendship list, and for any
  \<open>uid\<close>, \<^verbatim>\<open>findMutualFriends(uid)\<close> returns a list in which every suggestion is for an id
  of the node list other than \<open>uid\<close> and not a stored neighbor of \<open>uid\<close>; its
  \<^verbatim>\<open>mutualFriends\<close> are exactly the ids stored as neighbors of both, there is at least one,
  and \<^verbatim>\<open>mutualCount\<close> is their number. Every such candidate with a shared neighbor is in
  the list, and the list is in descending order of \<^verbatim>\<open>mutualCount\<close>.
\<close>

theorem findMutualFriends_suggestions:
  "\<exists>r. findMutualFriends (engine us fs) uid = Returns r \<and>
     (\<forall>s \<in> set r.
        userId s \<in> user_ids us \<and> userId s \<noteq> uid \<and>
        userId s \<notin> set (neighbors (buildAdjacencyList us fs) uid) \<and>
        set (mutualFriends s) =
          set (neighbors (buildAdjacencyList us fs) uid) \<inter>
          set (neighbors (buildAdjacencyList us fs) (userId s)) \<and>
        set (mutualFriends s) \<noteq> {} \<and>
        mutualCount s =
          int (card (set (neighbors (buildAdjacencyList us fs) uid) \<inter>
                     set (neighbors (buildAdjacencyList us fs) (userId s))))) \<and>
     (\<forall>c \<in> user_ids us.
        c \<noteq> uid \<and> c \<notin> set (neighbors (buildAdjacencyList us fs) uid) \<and>
        set (neighbors (buildAdjacencyList us fs) uid) \<inter>
          set (neighbors (buildAdjacencyList us fs) c) \<noteq> {}
        \<longrightarrow> c \<in> userId ` set r) \<and>
     sorted_wrt (\<lambda>a b. mutualCount a \<ge> mutualCount b) r"
proof -
  let ?adj = "buildAdjacencyList us fs"
  let ?uf = "neighbors ?adj uid"
  let ?sugg = "fold (suggest ?adj uid ?uf) us []"
  let ?r = "sort_key (\<lambda>s. - mutualCount s) ?sugg"
  have ret: "findMutualFriends (engine us fs) uid = Returns ?r"
    by (simp add: findMutualFriends_def Let_def)
  have d: "distinct ?uf" by (rule distinct_neighbors_build)
  have set_r: "set ?r = suggestion_for ?adj ?uf `
       {c \<in> user_ids us. c \<noteq> uid \<and> c \<notin> set ?uf \<and> mutual_of ?adj ?uf c \<noteq> []}"
    by (simp add: set_fold_suggest)
  have ne: "(mutual_of ?adj ?uf c \<noteq> []) = (set ?uf \<inter> set (neighbors ?adj c) \<noteq> {})" for c
    using set_mutual_of[of ?adj ?uf c] by (metis set_empty)
  have 1: "\<forall>s \<in> set ?r.
        userId s \<in> user_ids us \<and> userId s \<noteq> uid \<and> userId s \<notin> set ?uf \<and>
        set (mutualFriends s) = set ?uf \<inter> set (neighbors ?adj (userId s)) \<and>
        set (mutualFriends s) \<noteq> {} \<and>
        mutualCount s = int (card (set ?uf \<inter> set (neighbors ?adj (userId s))))"
    unfolding set_r
    by (auto simp: suggestion_for_def set_mutual_of length_mutual_of[OF d] ne)
  have 2: "\<forall>c \<in> user_ids us.
        c \<noteq> uid \<and> c \<notin> set ?uf \<and> set ?uf \<inter> set (neighbors ?adj c) \<noteq> {}
        \<longrightarrow> c \<in> userId ` set ?r"
  proof (intro ballI impI)
    fix c assume c: "c \<in> user_ids us"
      and h: "c \<noteq> uid \<and> c \<notin> set ?uf \<and> set ?uf \<inter> set (neighbors ?adj c) \<noteq> {}"
    then have "suggestion_for ?adj ?uf c \<in> set ?r"
      unfolding set_r using ne[of c] by blast
    moreover have "userId (suggestion_for ?adj ?uf c) = c" by (simp add: suggestion_for_def)
    ultimately show "c \<in> userId ` set ?r" by (metis imageI)
  qed
  have "sorted (map (\<lambda>s. - mutualCount s) ?r)" by (rule sorted_sort_key)
  then have 3: "sorted_wrt (\<lambda>a b. mutualCount a \<ge> mutualCount b) ?r"
    by (simp add: sorted_map)
  from ret 1 2 3 show ?thesis by blast
qed

text \<open>
  The sample data and Bob (\<^verbatim>\<open>'2'\<close>): the suggestions are Diana, through Charlie, and Eve,
  through Alice; Diana is in the node list, is not Bob and not a friend of Bob, and
  Charlie is the one friend they share.
\<close>

theorem findMutualFriends_suggestions_witness:
  "findMutualFriends (engine initial_users initial_friendships) ''2'' =
     Returns [\<lparr>userId = ''4'', mutualCount = 1, mutualFriends = [''3'']\<rparr>,
              \<lparr>userId = ''5'', mutualCount = 1, mutualFriends = [''1'']\<rparr>] \<and>
   ''4'' \<in> user_ids initial_users \<and>
   ''4'' \<notin> set (neighbors (buildAdjacencyList initial_users initial_friendships) ''2'') \<and>
   set (neighbors (buildAdjacencyList initial_users initial_friendships) ''2'') \<inter>
     set (neighbors (buildAdjacencyList initial_users initial_friendships) ''4'') = {''3''}"
proof -
  have e: "findMutualFriends (engine initial_users initial_friendships) ''2'' =
     Returns [\<lparr>userId = ''4'', mutualCount = 1, mutualFriends = [''3'']\<rparr>,
              \<lparr>userId = ''5'', mutualCount = 1, mutualFriends = [''1'']\<rparr>]"
    by code_simp
  from findMutualFriends_suggestions[of initial_users initial_friendships "''2''"] e
  show ?thesis by auto
qed

text \<open>
  Claim C7, as amended. For an id that is not in the node list, \<^verbatim>\<open>findMutualFriends\<close>
  returns the empty list; it raises no error.
\<close>

theorem findMutualFriends_unknown_user:
  "uid \<notin> user_ids us \<Longrightarrow> findMutualFriends (engine us fs) uid = Returns []"
proof -
  assume "uid \<notin> user_ids us"
  then have n: "neighbors (buildAdjacencyList us fs) uid = []" by (rule neighbors_build_absent)
  have "fold (suggest adj uid []) xs acc = acc" for adj xs acc
    by (induction xs arbitrary: acc) (simp_all add: suggest_def)
  then show ?thesis by (simp add: findMutualFriends_def n)
qed

theorem findMutualFriends_unknown_user_witness:
  "''9'' \<notin> user_ids initial_users \<and>
   findMutualFriends (engine initial_users initial_friendships) ''9'' = Returns []"
proof -
  have h: "''9'' \<notin> user_ids initial_users" by (simp add: user_ids_def initial_users_def)
  from h findMutualFriends_unknown_user[OF h, of initial_friendships] show ?thesis by simp
qed

text \<open>
  Claim C7 as stated fails: with Alice and Bob as the only users, friends of each other,
  the query for the unknown id \<^verbatim>\<open>'9'\<close> returns the empty list, and does not throw
  \<^verbatim>\<open>UnknownNode\<close>.
\<close>

theorem findMutualFriends_unknown_user_counterexample:
  "''9'' \<notin> user_ids [\<lparr>id_user = ''1'', name = ''Alice''\<rparr>, \<lparr>id_user = ''2'', name = ''Bob''\<rparr>] \<and>
   findMutualFriends
     (engine [\<lparr>id_user = ''1'', name = ''Alice''\<rparr>, \<lparr>id_user = ''2'', name = ''Bob''\<rparr>]
        [\<lparr>source = ''1'', target = ''2''\<rparr>]) ''9'' = Returns [] \<and>
   findMutualFriends
     (engine [\<lparr>id_user = ''1'', name = ''Alice''\<rparr>, \<lparr>id_user = ''2'', name = ''Bob''\<rparr>]
        [\<lparr>source = ''1'', target = ''2''\<rparr>]) ''9'' \<noteq> Throws UnknownNode"
  by code_simp

section \<open>Correctness of the breadth-first search\<close>

text \<open>
  The invariant of the search, with a ghost depth \<open>d\<close> for every discovered id. \<open>V\<close> is
  the visited set, \<open>pm\<close> the parent map and \<open>F\<close> the frontier: the queue, with the id
  under expansion in front of it while the \<^verbatim>\<open>for\<close> loop runs. Every discovered id other
  than the start has a discovered parent one level up that stores it as a neighbor; an
  id that left the frontier has all its neighbors discovered, none more than one level
  deeper; the frontier is sorted by depth and spans at most two levels.
\<close>

definition parent_inv ::
  "adjacency \<Rightarrow> string \<Rightarrow> (string \<Rightarrow> nat) \<Rightarrow> string set \<Rightarrow> (string \<Rightarrow> string option) \<Rightarrow> bool" where
  "parent_inv adj s d V pm \<longleftrightarrow>
     s \<in> V \<and> d s = 0 \<and> pm s = None \<and>
     (\<forall>v \<in> V. v \<noteq> s \<longrightarrow>
        (\<exists>p. pm v = Some p \<and> p \<in> V \<and> v \<in> set (neighbors adj p) \<and> d v = d p + 1))"

definition bfs_inv ::
  "adjacency \<Rightarrow> string \<Rightarrow> string \<Rightarrow> (string \<Rightarrow> nat) \<Rightarrow> string list \<Rightarrow> string set \<Rightarrow>
     (string \<Rightarrow> string option) \<Rightarrow> bool" where
  "bfs_inv adj s e d F V pm \<longleftrightarrow>
     parent_inv adj s d V pm \<and> set F \<subseteq> V \<and> e \<notin> V \<and>
     (\<forall>v \<in> V - set F. \<forall>w \<in> set (neighbors adj v). w \<in> V \<and> d w \<le> d v + 1) \<and>
     sorted (map d F) \<and> (\<forall>x \<in> set F. \<forall>y \<in> set F. d y \<le> d x + 1) \<and>
     (\<forall>v \<in> V - set F. \<forall>x \<in> set F. d v \<le> d x)"

lemma walk_single [simp]: "walk adj [x]"
  by (simp add: walk_def)

lemma walk_Cons: "walk adj (x # y # q) \<longleftrightarrow> y \<in> set (neighbors adj x) \<and> walk adj (y # q)"
  by (simp add: walk_def)

lemma walk_snoc: "walk adj q \<Longrightarrow> v \<in> set (neighbors adj (last q)) \<Longrightarrow> walk adj (q @ [v])"
  by (auto simp: walk_def successively_append_iff)

text \<open>
  A walk from a discovered id to the undiscovered end has to cross the frontier, so it
  is at least as long as the depth of a frontier id plus the two ids after it.
\<close>

lemma bfs_inv_walk:
  "bfs_inv adj s e d F V pm \<Longrightarrow> x \<in> V \<Longrightarrow> walk adj (x # q) \<Longrightarrow> last (x # q) = e \<Longrightarrow>
     \<exists>f \<in> set F. d f + 2 \<le> d x + length (x # q)"
proof (induction q arbitrary: x)
  case Nil
  then show ?case by (simp add: bfs_inv_def)
next
  case (Cons y q)
  from Cons.prems(3) have xy: "y \<in> set (neighbors adj x)" and w: "walk adj (y # q)"
    by (simp_all add: walk_Cons)
  show ?case
  proof (cases "x \<in> set F")
    case True
    then show ?thesis by (intro bexI[of _ x]) simp_all
  next
    case False
    with Cons.prems(1,2) xy have y: "y \<in> V" "d y \<le> d x + 1"
      by (auto simp: bfs_inv_def)
    from Cons.IH[OF Cons.prems(1) y(1) w] Cons.prems(4)
    obtain f where "f \<in> set F" "d f + 2 \<le> d y + length (y # q)" by auto
    with y(2) show ?thesis by (intro bexI[of _ f]) simp_all
  qed
qed

lemma parent_inv_walk:
  "parent_inv adj s d V pm \<Longrightarrow> v \<in> V \<Longrightarrow>
     \<exists>q. walk adj q \<and> hd q = s \<and> last q = v \<and> length q = d v + 1"
proof (induction "d v" arbitrary: v)
  case 0
  then have "v = s" by (auto simp: parent_inv_def)
  then show ?case using 0 by (intro exI[of _ "[s]"]) (simp add: parent_inv_def)
next
  case (Suc n)
  then have "v \<noteq> s" by (auto simp: parent_inv_def)
  with Suc.prems obtain p where p: "pm v = Some p" "p \<in> V" "v \<in> set (neighbors adj p)" "d v = d p + 1"
    by (auto simp: parent_inv_def)
  with Suc.hyps(2) have "n = d p" by simp
  from Suc.hyps(1)[OF this Suc.prems(1) p(2)]
  obtain q where q: "walk adj q" "hd q = s" "last q = p" "length q = d p + 1" by blast
  then have "q \<noteq> []" by (auto simp: walk_def)
  with q p show ?case
    by (intro exI[of _ "q @ [v]"]) (simp add: walk_snoc)
qed

text \<open>
  The reconstruction ends on the parent map of the search. When no discovered id is the
  empty string it yields the whole chain from the start to the end.
\<close>

lemma reconstruct_total:
  "parent_inv adj s d V (map_of par) \<Longrightarrow> v \<in> V \<Longrightarrow> \<exists>p. reconstruct par (Some v) acc = Some p"
proof (induction "d v" arbitrary: v acc rule: less_induct)
  case less
  show ?case
  proof (cases "v = []")
    case True
    then show ?thesis by (subst reconstruct.simps) simp
  next
    case ne: False
    show ?thesis
    proof (cases "v = s")
      case True
      with less.prems have "map_of par v = None" by (simp add: parent_inv_def)
      with ne show ?thesis by (subst reconstruct.simps) (simp add: reconstruct.simps)
    next
      case False
      with less.prems obtain p where p: "map_of par v = Some p" "p \<in> V" "d v = d p + 1"
        by (auto simp: parent_inv_def)
      then have "d p < d v" by simp
      from less.hyps[OF this less.prems(1) p(2), of "v # acc"] p(1) ne
      show ?thesis by (subst reconstruct.simps) simp
    qed
  qed
qed

lemma reconstruct_path:
  "parent_inv adj s d V (map_of par) \<Longrightarrow> v \<in> V \<Longrightarrow> [] \<notin> V \<Longrightarrow>
     \<exists>q. reconstruct par (Some v) acc = Some (q @ acc) \<and>
         walk adj q \<and> hd q = s \<and> last q = v \<and> length q = d v + 1"
proof (induction "d v" arbitrary: v acc rule: less_induct)
  case less
  from less.prems have ne: "v \<noteq> []" by auto
  show ?case
  proof (cases "v = s")
    case True
    with less.prems have "map_of par v = None" "d v = 0" by (simp_all add: parent_inv_def)
    with ne True show ?thesis
      by (intro exI[of _ "[s]"]) (simp add: reconstruct.simps[of par "Some s"] reconstruct.simps[of par None])
  next
    case False
    with less.prems obtain p where p: "map_of par v = Some p" "p \<in> V" "v \<in> set (neighbors adj p)" "d v = d p + 1"
      by (auto simp: parent_inv_def)
    then have "d p < d v" by simp
    from less.hyps[OF this less.prems(1) p(2) less.prems(3), of "v # acc"]
    obtain q where q: "reconstruct par (Some p) (v # acc) = Some (q @ v # acc)"
      "walk adj q" "hd q = s" "last q = p" "length q = d p + 1" by blast
    then have "q \<noteq> []" by (auto simp: walk_def)
    have "reconstruct par (Some v) acc = Some ((q @ [v]) @ acc)"
      using q(1) p(1) ne by (subst reconstruct.simps) simp
    with q p \<open>q \<noteq> []\<close> show ?thesis
      by (intro exI[of _ "q @ [v]"]) (simp add: walk_snoc)
  qed
qed

text \<open>What holds of the value returned from inside the \<^verbatim>\<open>for\<close> loop.\<close>

definition found_ok :: "adjacency \<Rightarrow> string \<Rightarrow> string \<Rightarrow> PathResult option outcome \<Rightarrow> bool" where
  "found_ok adj s e r \<longleftrightarrow>
     (\<exists>d V par. parent_inv adj s d V (map_of par) \<and> e \<in> V \<and>
        r = path_result (reconstruct par (Some e) []) \<and>
        (\<forall>q. walk adj q \<and> hd q = s \<and> last q = e \<longrightarrow> d e + 1 \<le> length q))"

lemma bfs_inv_pop:
  assumes "bfs_inv adj s e d (c # F) V pm" "set (neighbors adj c) \<subseteq> V"
  shows "bfs_inv adj s e d F V pm"
proof -
  from assms(1) have
    pi: "parent_inv adj s d V pm" and FV: "set (c # F) \<subseteq> V" and e: "e \<notin> V"
    and cl: "\<forall>v \<in> V - set (c # F). \<forall>w \<in> set (neighbors adj v). w \<in> V \<and> d w \<le> d v + 1"
    and so: "sorted (map d (c # F))"
    and w1: "\<forall>x \<in> set (c # F). \<forall>y \<in> set (c # F). d y \<le> d x + 1"
    and pf: "\<forall>v \<in> V - set (c # F). \<forall>x \<in> set (c # F). d v \<le> d x"
    by (simp_all add: bfs_inv_def)
  have dc: "\<forall>w \<in> V. d w \<le> d c + 1"
  proof
    fix w assume "w \<in> V"
    show "d w \<le> d c + 1"
    proof (cases "w \<in> set (c # F)")
      case True then show ?thesis using w1 by auto
    next
      case False with \<open>w \<in> V\<close> pf have "d w \<le> d c" by auto
      then show ?thesis by simp
    qed
  qed
  have cl': "\<forall>v \<in> V - set F. \<forall>w \<in> set (neighbors adj v). w \<in> V \<and> d w \<le> d v + 1"
  proof (intro ballI)
    fix v w assume v: "v \<in> V - set F" and w: "w \<in> set (neighbors adj v)"
    show "w \<in> V \<and> d w \<le> d v + 1"
    proof (cases "v = c")
      case True
      with w assms(2) have "w \<in> V" by auto
      with dc True show ?thesis by simp
    next
      case False
      with v have "v \<in> V - set (c # F)" by simp
      with cl w show ?thesis by blast
    qed
  qed
  have pf': "\<forall>v \<in> V - set F. \<forall>x \<in> set F. d v \<le> d x"
  proof (intro ballI)
    fix v x assume v: "v \<in> V - set F" and x: "x \<in> set F"
    show "d v \<le> d x"
    proof (cases "v = c")
      case True
      with so x show ?thesis by auto
    next
      case False
      with v have "v \<in> V - set (c # F)" by simp
      with pf x show ?thesis by simp
    qed
  qed
  from so have "sorted (map d F)" by simp
  moreover from w1 have "\<forall>x \<in> set F. \<forall>y \<in> set F. d y \<le> d x + 1" by simp
  moreover from FV have "set F \<subseteq> V" by simp
  ultimately show ?thesis unfolding bfs_inv_def using pi e cl' pf' by (intro conjI)
qed

lemma parent_inv_push:
  assumes "parent_inv adj s d V pm" "c \<in> V" "n \<in> set (neighbors adj c)" "n \<notin> V"
  shows "parent_inv adj s (d(n := d c + 1)) (insert n V) (pm(n \<mapsto> c))"
proof -
  from assms have ns: "n \<noteq> s" "n \<noteq> c" by (auto simp: parent_inv_def)
  have "\<exists>p. (pm(n \<mapsto> c)) v = Some p \<and> p \<in> insert n V \<and> v \<in> set (neighbors adj p) \<and>
          (d(n := d c + 1)) v = (d(n := d c + 1)) p + 1"
    if v: "v \<in> insert n V" "v \<noteq> s" for v
  proof (cases "v = n")
    case True
    with assms ns show ?thesis by (intro exI[of _ c]) simp
  next
    case False
    with v assms(1) obtain p where p: "pm v = Some p" "p \<in> V" "v \<in> set (neighbors adj p)" "d v = d p + 1"
      by (auto simp: parent_inv_def)
    with assms(4) have "p \<noteq> n" by auto
    with p False show ?thesis by (intro exI[of _ p]) simp
  qed
  with assms(1) ns show ?thesis by (simp add: parent_inv_def)
qed

lemma bfs_inv_push:
  assumes "bfs_inv adj s e d (c # F) V pm" "n \<in> set (neighbors adj c)" "n \<notin> V" "n \<noteq> e"
  shows "bfs_inv adj s e (d(n := d c + 1)) (c # F @ [n]) (insert n V) (pm(n \<mapsto> c))"
proof -
  let ?d = "d(n := d c + 1)"
  from assms(1) have
    pi: "parent_inv adj s d V pm" and FV: "set (c # F) \<subseteq> V" and e: "e \<notin> V"
    and cl: "\<forall>v \<in> V - set (c # F). \<forall>w \<in> set (neighbors adj v). w \<in> V \<and> d w \<le> d v + 1"
    and so: "sorted (map d (c # F))"
    and w1: "\<forall>x \<in> set (c # F). \<forall>y \<in> set (c # F). d y \<le> d x + 1"
    and pf: "\<forall>v \<in> V - set (c # F). \<forall>x \<in> set (c # F). d v \<le> d x"
    by (simp_all add: bfs_inv_def)
  have neV: "x \<noteq> n" if "x \<in> V" for x using that assms(3) by blast
  have neF: "x \<noteq> n" if "x \<in> set (c # F)" for x using that FV neV by blast
  from FV have cV: "c \<in> V" by simp
  have hd_le: "d c \<le> d x" if "x \<in> set (c # F)" for x using so that by auto
  have le_hd: "d y \<le> d c + 1" if "y \<in> set (c # F)" for y
    using w1 that by (metis list.set_intros(1))
  have 1: "parent_inv adj s ?d (insert n V) (pm(n \<mapsto> c))"
    by (rule parent_inv_push[OF pi cV assms(2,3)])
  have 2: "set (c # F @ [n]) \<subseteq> insert n V" using FV by auto
  have 3: "e \<notin> insert n V" using e assms(4) by simp
  have 4: "\<forall>v \<in> insert n V - set (c # F @ [n]). \<forall>w \<in> set (neighbors adj v).
             w \<in> insert n V \<and> ?d w \<le> ?d v + 1"
  proof (intro ballI)
    fix v w assume v: "v \<in> insert n V - set (c # F @ [n])" and w: "w \<in> set (neighbors adj v)"
    then have v': "v \<in> V - set (c # F)" by auto
    with cl w have ww: "w \<in> V \<and> d w \<le> d v + 1" by blast
    from v' have "v \<noteq> n" using neV by blast
    moreover from ww have "w \<noteq> n" using neV by blast
    ultimately show "w \<in> insert n V \<and> ?d w \<le> ?d v + 1" using ww by simp
  qed
  have m: "map ?d (c # F) = map d (c # F)"
    by (rule map_cong[OF refl]) (use neF in simp)
  have 5: "sorted (map ?d (c # F @ [n]))"
  proof -
    have eq: "map ?d (c # F @ [n]) = map d (c # F) @ [d c + 1]" using m by simp
    have "\<forall>x \<in> set (map d (c # F)). x \<le> d c + 1" using le_hd by auto
    then have "sorted (map d (c # F) @ [d c + 1])"
      using so by (simp only: sorted_append) simp
    then show ?thesis unfolding eq .
  qed
  have 6: "\<forall>x \<in> set (c # F @ [n]). \<forall>y \<in> set (c # F @ [n]). ?d y \<le> ?d x + 1"
  proof (intro ballI)
    fix x y assume x: "x \<in> set (c # F @ [n])" and y: "y \<in> set (c # F @ [n])"
    consider "x = n" "y = n" | "x = n" "y \<in> set (c # F)" | "x \<in> set (c # F)" "y = n"
      | "x \<in> set (c # F)" "y \<in> set (c # F)" using x y by auto
    then show "?d y \<le> ?d x + 1"
    proof cases
      case 1 then show ?thesis by simp
    next
      case 2
      with le_hd[of y] neF[of y] show ?thesis by simp
    next
      case 3
      with hd_le[of x] neF[of x] show ?thesis by simp
    next
      case 4
      with w1 have "d y \<le> d x + 1" by blast
      with 4 neF[of x] neF[of y] show ?thesis by simp
    qed
  qed
  have 7: "\<forall>v \<in> insert n V - set (c # F @ [n]). \<forall>x \<in> set (c # F @ [n]). ?d v \<le> ?d x"
  proof (intro ballI)
    fix v x assume v: "v \<in> insert n V - set (c # F @ [n])" and x: "x \<in> set (c # F @ [n])"
    then have v': "v \<in> V - set (c # F)" by auto
    then have vn: "v \<noteq> n" using neV by blast
    show "?d v \<le> ?d x"
    proof (cases "x = n")
      case True
      from pf v' have "d v \<le> d c" by (metis list.set_intros(1))
      with True vn show ?thesis by simp
    next
      case False
      with x have x': "x \<in> set (c # F)" by auto
      with pf v' have "d v \<le> d x" by blast
      with vn False show ?thesis by simp
    qed
  qed
  show ?thesis unfolding bfs_inv_def by (intro conjI 1 2 3 4 5 6 7)
qed

lemma bfs_inv_found:
  assumes "bfs_inv adj s e d (c # F) V pm" "e \<in> set (neighbors adj c)"
  shows "parent_inv adj s (d(e := d c + 1)) (insert e V) (pm(e \<mapsto> c))"
    and "\<forall>q. walk adj q \<and> hd q = s \<and> last q = e \<longrightarrow> d c + 2 \<le> length q"
proof -
  from assms(1) have pi: "parent_inv adj s d V pm" and cV: "c \<in> V" and e: "e \<notin> V"
    and so: "sorted (map d (c # F))"
    by (simp_all add: bfs_inv_def)
  show "parent_inv adj s (d(e := d c + 1)) (insert e V) (pm(e \<mapsto> c))"
    by (rule parent_inv_push[OF pi cV assms(2) e])
  show "\<forall>q. walk adj q \<and> hd q = s \<and> last q = e \<longrightarrow> d c + 2 \<le> length q"
  proof (intro allI impI)
    fix q assume q: "walk adj q \<and> hd q = s \<and> last q = e"
    then obtain q' where q': "q = s # q'" by (cases q) (auto simp: walk_def)
    from pi have s: "s \<in> V" "d s = 0" by (simp_all add: parent_inv_def)
    from bfs_inv_walk[OF assms(1) s(1), of q'] q q'
    obtain f where f: "f \<in> set (c # F)" "d f + 2 \<le> d s + length q" by auto
    from so f(1) have "d c \<le> d f" by auto
    with f(2) s(2) show "d c + 2 \<le> length q" by simp
  qed
qed

lemma bfs_neighbors_inv:
  assumes "bfs_inv adj s e d (c # queue st) (set (visited st)) (map_of (parent st))"
    and "set ns \<subseteq> set (neighbors adj c)"
    and "\<forall>w \<in> set (neighbors adj c). w \<in> set ns \<or> w \<in> set (visited st)"
  shows "case bfs_neighbors e c ns st of
           Inl r \<Rightarrow> found_ok adj s e r
         | Inr st' \<Rightarrow> \<exists>d'. bfs_inv adj s e d' (queue st') (set (visited st')) (map_of (parent st'))"
  using assms
proof (induction ns arbitrary: st d)
  case Nil
  then have "set (neighbors adj c) \<subseteq> set (visited st)" by auto
  from bfs_inv_pop[OF Nil.prems(1) this] show ?case by auto
next
  case (Cons n ns)
  show ?case
  proof (cases "n \<in> set (visited st)")
    case True
    with Cons.prems have "\<forall>w \<in> set (neighbors adj c). w \<in> set ns \<or> w \<in> set (visited st)"
      by auto
    from Cons.IH[OF Cons.prems(1) _ this] Cons.prems(2) True show ?thesis by simp
  next
    case False
    let ?st = "st\<lparr>visited := add_Set n (visited st),
                   parent := AList.update n c (parent st),
                   queue := queue st @ [n]\<rparr>"
    from Cons.prems(2) have nc: "n \<in> set (neighbors adj c)" by simp
    show ?thesis
    proof (cases "n = e")
      case True
      from bfs_inv_found[OF Cons.prems(1)] nc True
      have pi: "parent_inv adj s (d(e := d c + 1)) (insert e (set (visited st)))
                  (map_of (AList.update e c (parent st)))"
        and mn: "\<forall>q. walk adj q \<and> hd q = s \<and> last q = e \<longrightarrow> d c + 2 \<le> length q"
        by (simp_all add: update_conv')
      have "found_ok adj s e (path_result (reconstruct (AList.update e c (parent st)) (Some e) []))"
        unfolding found_ok_def
        by (rule exI[of _ "d(e := d c + 1)"], rule exI[of _ "insert e (set (visited st))"],
            rule exI[of _ "AList.update e c (parent st)"]) (use pi mn in simp)
      with False True show ?thesis by (simp add: Let_def)
    next
      case ne: False
      from bfs_inv_push[OF Cons.prems(1) nc False ne]
      have inv: "bfs_inv adj s e (d(n := d c + 1)) (c # queue ?st) (set (visited ?st))
                   (map_of (parent ?st))"
        by (simp add: update_conv')
      have sub: "set ns \<subseteq> set (neighbors adj c)" using Cons.prems(2) by simp
      have cov: "\<forall>w \<in> set (neighbors adj c). w \<in> set ns \<or> w \<in> set (visited ?st)"
        using Cons.prems(3) by auto
      from Cons.IH[OF inv sub cov] False ne show ?thesis by (simp add: Let_def)
    qed
  qed
qed

definition bfs_ok :: "adjacency \<Rightarrow> string \<Rightarrow> string \<Rightarrow> PathResult option outcome \<Rightarrow> bool" where
  "bfs_ok adj s e r \<longleftrightarrow>
     (r = Returns None \<and> \<not> (\<exists>q. walk adj q \<and> hd q = s \<and> last q = e)) \<or> found_ok adj s e r"

lemma bfs_loop_inv:
  "bfs_inv adj s e d (queue st) (set (visited st)) (map_of (parent st)) \<Longrightarrow>
     bfs_ok adj s e (bfs_loop adj e st)"
proof (induction adj e st arbitrary: d rule: bfs_loop.induct)
  case (1 adj e st)
  show ?case
  proof (cases "queue st")
    case Nil
    have "\<not> (\<exists>q. walk adj q \<and> hd q = s \<and> last q = e)"
    proof
      assume "\<exists>q. walk adj q \<and> hd q = s \<and> last q = e"
      then obtain q where q: "walk adj q" "hd q = s" "last q = e" by blast
      then obtain q' where q': "q = s # q'" by (cases q) (auto simp: walk_def)
      from "1.prems" have "s \<in> set (visited st)" by (simp add: bfs_inv_def parent_inv_def)
      from bfs_inv_walk[OF "1.prems" this, of q'] q q' Nil show False by simp
    qed
    with Nil show ?thesis by (simp add: bfs_loop.simps[of adj e st] bfs_ok_def)
  next
    case (Cons c rest)
    let ?st = "st\<lparr>queue := rest\<rparr>"
    from "1.prems" Cons
    have inv: "bfs_inv adj s e d (c # queue ?st) (set (visited ?st)) (map_of (parent ?st))"
      by simp
    note inner = bfs_neighbors_inv[OF inv subset_refl, simplified]
    show ?thesis
    proof (cases "bfs_neighbors e c (neighbors adj c) ?st")
      case (Inl r)
      with inner have "found_ok adj s e r" by simp
      with Cons Inl show ?thesis by (simp add: bfs_loop.simps[of adj e st] bfs_ok_def)
    next
      case (Inr st')
      with inner obtain d' where
        "bfs_inv adj s e d' (queue st') (set (visited st')) (map_of (parent st'))" by auto
      from "1.IH"[OF Cons Inr this] Cons Inr show ?thesis
        by (simp add: bfs_loop.simps[of adj e st])
    qed
  qed
qed

lemma bfs_inv_init:
  "s \<noteq> e \<Longrightarrow> bfs_inv adj s e (\<lambda>_. 0) [s] {s} Map.empty"
  by (simp add: bfs_inv_def parent_inv_def)

lemma findShortestPath_ok:
  "s \<noteq> e \<Longrightarrow> bfs_ok (adjacencyList g) s e (findShortestPath g s e)"
  unfolding findShortestPath_def
  using bfs_loop_inv[of "adjacencyList g" s e "\<lambda>_. 0" "\<lparr>queue = [s], visited = [s], parent = []\<rparr>"]
    bfs_inv_init[of s e "adjacencyList g"]
  by simp

lemma walk_reach: "walk adj (x # q) \<Longrightarrow> (x, last (x # q)) \<in> (adj_rel adj)\<^sup>*"
proof (induction q arbitrary: x)
  case Nil
  then show ?case by simp
next
  case (Cons y q)
  then have "(x, y) \<in> adj_rel adj" and "(y, last (y # q)) \<in> (adj_rel adj)\<^sup>*"
    by (simp_all add: walk_Cons adj_rel_def)
  then show ?case by (simp add: converse_rtrancl_into_rtrancl)
qed

lemma reach_walk: "(x, y) \<in> (adj_rel adj)\<^sup>* \<Longrightarrow> \<exists>q. walk adj q \<and> hd q = x \<and> last q = y"
proof (induction rule: rtrancl_induct)
  case base
  show ?case by (intro exI[of _ "[x]"]) simp
next
  case (step y z)
  then obtain q where q: "walk adj q" "hd q = x" "last q = y" by blast
  then have "q \<noteq> []" by (simp add: walk_def)
  with q step.hyps(2) show ?case
    by (intro exI[of _ "q @ [z]"]) (simp add: walk_snoc adj_rel_def)
qed

lemma reach_iff_walk:
  "(x, y) \<in> (adj_rel adj)\<^sup>* \<longleftrightarrow> (\<exists>q. walk adj q \<and> hd q = x \<and> last q = y)"
proof
  assume "\<exists>q. walk adj q \<and> hd q = x \<and> last q = y"
  then obtain q where q: "walk adj q" "hd q = x" "last q = y" by blast
  then obtain q' where "q = x # q'" by (cases q) (auto simp: walk_def)
  with walk_reach[of adj x q'] q show "(x, y) \<in> (adj_rel adj)\<^sup>*" by simp
qed (rule reach_walk)

lemma found_ok_returns:
  assumes "found_ok adj s e r"
  shows "\<exists>p. r = Returns (Some \<lparr>path = p, distance = int (length p) - 1\<rparr>)"
    and "(s, e) \<in> (adj_rel adj)\<^sup>*"
proof -
  from assms obtain d V par where h: "parent_inv adj s d V (map_of par)" "e \<in> V"
    "r = path_result (reconstruct par (Some e) [])"
    unfolding found_ok_def by blast
  from reconstruct_total[OF h(1,2), of "[]"] obtain p where "reconstruct par (Some e) [] = Some p"
    by blast
  with h(3) show "\<exists>p. r = Returns (Some \<lparr>path = p, distance = int (length p) - 1\<rparr>)"
    by (simp add: path_result_def)
  from parent_inv_walk[OF h(1,2)] show "(s, e) \<in> (adj_rel adj)\<^sup>*"
    unfolding reach_iff_walk by blast
qed

lemma findShortestPath_total:
  "\<exists>r. findShortestPath g s e = Returns r \<and> (r = None \<longleftrightarrow> (s, e) \<notin> (adj_rel (adjacencyList g))\<^sup>*)"
proof (cases "s = e")
  case True
  then show ?thesis by (simp add: findShortestPath_def)
next
  case False
  from findShortestPath_ok[OF False, of g]
  consider "findShortestPath g s e = Returns None"
      "\<not> (\<exists>q. walk (adjacencyList g) q \<and> hd q = s \<and> last q = e)"
    | "found_ok (adjacencyList g) s e (findShortestPath g s e)"
    unfolding bfs_ok_def by blast
  then show ?thesis
  proof cases
    case 1
    then show ?thesis by (simp add: reach_iff_walk)
  next
    case 2
    from found_ok_returns[OF 2] show ?thesis by auto
  qed
qed

lemma adj_rel_build:
  "adj_rel (buildAdjacencyList us fs) = {(x, y). x \<in> user_ids us \<and> is_edge fs x y}"
  by (auto simp: adj_rel_def set_neighbors_build split: if_splits)

text \<open>
  Claim C8. For every node list, friendship list, start and end, \<^verbatim>\<open>findShortestPath\<close>
  returns normally, and what it returns is \<^verbatim>\<open>null\<close> exactly when the end cannot be reached
  from the start along friendships, each taken from an endpoint that is in the node list
  (the steps the index stores; with every endpoint in the node list these are all the
  friendships, in both directions).
\<close>

theorem findShortestPath_NotFound_iff_unreachable:
  "\<exists>r. findShortestPath (engine us fs) s e = Returns r \<and>
       (r = None \<longleftrightarrow> (s, e) \<notin> {(x, y). x \<in> user_ids us \<and> is_edge fs x y}\<^sup>*)"
  using findShortestPath_total[of "engine us fs" s e] by (simp add: adj_rel_build)

text \<open>
  The disconnection scenario: without the friendship of Alice and Eve, Frank cannot be
  reached from Diana, and the query returns \<^verbatim>\<open>null\<close>.
\<close>

theorem findShortestPath_NotFound_iff_unreachable_witness:
  "findShortestPath
     (engine initial_users
        [\<lparr>source = ''1'', target = ''2''\<rparr>, \<lparr>source = ''2'', target = ''3''\<rparr>,
         \<lparr>source = ''3'', target = ''4''\<rparr>, \<lparr>source = ''5'', target = ''6''\<rparr>]) ''4'' ''6'' =
     Returns None \<and>
   (''4'', ''6'') \<notin>
     {(x, y). x \<in> user_ids initial_users \<and>
        is_edge [\<lparr>source = ''1'', target = ''2''\<rparr>, \<lparr>source = ''2'', target = ''3''\<rparr>,
                 \<lparr>source = ''3'', target = ''4''\<rparr>, \<lparr>source = ''5'', target = ''6''\<rparr>] x y}\<^sup>*"
proof -
  have e: "findShortestPath
     (engine initial_users
        [\<lparr>source = ''1'', target = ''2''\<rparr>, \<lparr>source = ''2'', target = ''3''\<rparr>,
         \<lparr>source = ''3'', target = ''4''\<rparr>, \<lparr>source = ''5'', target = ''6''\<rparr>]) ''4'' ''6'' =
     Returns None"
    by code_simp
  from findShortestPath_NotFound_iff_unreachable[of initial_users
        "[\<lparr>source = ''1'', target = ''2''\<rparr>, \<lparr>source = ''2'', target = ''3''\<rparr>,
         \<lparr>source = ''3'', target = ''4''\<rparr>, \<lparr>source = ''5'', target = ''6''\<rparr>]" "''4''" "''6''"] e
  show ?thesis by simp
qed

lemma rtrancl_no_out: "(x, y) \<in> R\<^sup>* \<Longrightarrow> x \<noteq> y \<Longrightarrow> \<exists>z. (x, z) \<in> R"
  by (meson converse_rtranclE)

lemma rtrancl_no_in: "(x, y) \<in> R\<^sup>* \<Longrightarrow> x \<noteq> y \<Longrightarrow> \<exists>z. (z, y) \<in> R"
  by (meson rtranclE)


text \<open>
  Claim C6, as amended. \<^verbatim>\<open>findShortestPath\<close> returns normally on every query and never
  fails with \<^verbatim>\<open>UnknownNode\<close>: with start equal to end it returns the one-element path and
  distance 0, whether the id is known or not; with a start that differs from the end and
  is not in the node list it returns \<^verbatim>\<open>null\<close>; and it also returns \<^verbatim>\<open>null\<close> when the end
  differs from the start and no friendship names it.
\<close>

theorem findShortestPath_never_throws:
  "(\<exists>r. findShortestPath (engine us fs) s e = Returns r) \<and>
   (s = e \<longrightarrow> findShortestPath (engine us fs) s e = Returns (Some \<lparr>path = [s], distance = 0\<rparr>)) \<and>
   (s \<noteq> e \<and> s \<notin> user_ids us \<longrightarrow> findShortestPath (engine us fs) s e = Returns None) \<and>
   (s \<noteq> e \<and> (\<forall>x. \<not> is_edge fs x e) \<longrightarrow> findShortestPath (engine us fs) s e = Returns None)"
proof -
  let ?R = "{(x, y). x \<in> user_ids us \<and> is_edge fs x y}"
  from findShortestPath_total[of "engine us fs" s e]
  obtain r where r: "findShortestPath (engine us fs) s e = Returns r"
    "r = None \<longleftrightarrow> (s, e) \<notin> ?R\<^sup>*" by (auto simp: adj_rel_build)
  have 1: "s = e \<longrightarrow> findShortestPath (engine us fs) s e = Returns (Some \<lparr>path = [s], distance = 0\<rparr>)"
    by (simp add: findShortestPath_def)
  have 2: "(s, e) \<notin> ?R\<^sup>*" if "s \<noteq> e" "s \<notin> user_ids us"
    using rtrancl_no_out[of s e ?R] that by auto
  have 3: "(s, e) \<notin> ?R\<^sup>*" if "s \<noteq> e" "\<forall>x. \<not> is_edge fs x e"
    using rtrancl_no_in[of s e ?R] that by auto
  from r 1 2 3 show ?thesis by auto
qed

text \<open>The sample data: the unknown id \<^verbatim>\<open>'9'\<close>, as both ends and as the start.\<close>

theorem findShortestPath_never_throws_witness:
  "''9'' \<notin> user_ids initial_users \<and>
   findShortestPath (engine initial_users initial_friendships) ''9'' ''9'' =
     Returns (Some \<lparr>path = [''9''], distance = 0\<rparr>) \<and>
   findShortestPath (engine initial_users initial_friendships) ''9'' ''1'' = Returns None"
proof -
  have h: "''9'' \<notin> user_ids initial_users" by (simp add: user_ids_def initial_users_def)
  from h findShortestPath_never_throws[of initial_users initial_friendships "''9''" "''9''"]
    findShortestPath_never_throws[of initial_users initial_friendships "''9''" "''1''"]
  show ?thesis by simp
qed

text \<open>
  Claim C6 as stated fails: with Alice and Bob as the only users, friends of each other,
  the query from the unknown id \<^verbatim>\<open>'9'\<close> to itself returns a \<^verbatim>\<open>PathResult\<close>, and the queries
  from \<^verbatim>\<open>'9'\<close> to Alice and from Alice to \<^verbatim>\<open>'9'\<close> return \<^verbatim>\<open>null\<close>; none throws
  \<^verbatim>\<open>UnknownNode\<close>.
\<close>

theorem findShortestPath_unknown_node_counterexample:
  "''9'' \<notin> user_ids [\<lparr>id_user = ''1'', name = ''Alice''\<rparr>, \<lparr>id_user = ''2'', name = ''Bob''\<rparr>] \<and>
   findShortestPath
     (engine [\<lparr>id_user = ''1'', name = ''Alice''\<rparr>, \<lparr>id_user = ''2'', name = ''Bob''\<rparr>]
        [\<lparr>source = ''1'', target = ''2''\<rparr>]) ''9'' ''9'' =
     Returns (Some \<lparr>path = [''9''], distance = 0\<rparr>) \<and>
   findShortestPath
     (engine [\<lparr>id_user = ''1'', name = ''Alice''\<rparr>, \<lparr>id_user = ''2'', name = ''Bob''\<rparr>]
        [\<lparr>source = ''1'', target = ''2''\<rparr>]) ''9'' ''1'' = Returns None \<and>
   findShortestPath
     (engine [\<lparr>id_user = ''1'', name = ''Alice''\<rparr>, \<lparr>id_user = ''2'', name = ''Bob''\<rparr>]
        [\<lparr>source = ''1'', target = ''2''\<rparr>]) ''1'' ''9'' = Returns None"
  by code_simp

text \<open>Every friendship joins two ids of the node list.\<close>

definition edges_present :: "User list \<Rightarrow> Friendship list \<Rightarrow> bool" where
  "edges_present us fs \<longleftrightarrow> (\<forall>f \<in> set fs. source f \<in> user_ids us \<and> target f \<in> user_ids us)"

lemma is_edge_present:
  "edges_present us fs \<Longrightarrow> is_edge fs x y \<Longrightarrow> x \<in> user_ids us \<and> y \<in> user_ids us"
  by (auto simp: edges_present_def is_edge_def)

lemma neighbors_build_valid:
  "edges_present us fs \<Longrightarrow> y \<in> set (neighbors (buildAdjacencyList us fs) x) \<longleftrightarrow> is_edge fs x y"
  using is_edge_present[of us fs x y] by (auto simp: set_neighbors_build)

lemma walk_build_valid:
  "edges_present us fs \<Longrightarrow>
     walk (buildAdjacencyList us fs) q \<longleftrightarrow> q \<noteq> [] \<and> successively (is_edge fs) q"
  by (simp add: walk_def neighbors_build_valid)

lemma adj_rel_build_valid:
  "edges_present us fs \<Longrightarrow> adj_rel (buildAdjacencyList us fs) = {(x, y). is_edge fs x y}"
  by (auto simp: adj_rel_def neighbors_build_valid)

lemma parent_inv_members:
  "parent_inv adj s d V pm \<Longrightarrow> v \<in> V \<Longrightarrow> v = s \<or> (\<exists>p. v \<in> set (neighbors adj p))"
  by (auto simp: parent_inv_def)

text \<open>
  The search on graphs without the empty id. When every friendship joins two ids of the
  node list, no id is the empty string, and the end differs from the start and can be
  reached from it, \<^verbatim>\<open>findShortestPath\<close> returns a path from the start to the end along
  friendships, with \<^verbatim>\<open>distance\<close> one less than its length, and no walk from the start to
  the end is shorter.
\<close>

lemma findShortestPath_shortest_nonempty:
  assumes valid: "edges_present us fs" and nonempty: "[] \<notin> user_ids us"
    and se: "s \<noteq> e" and reach: "(s, e) \<in> {(x, y). is_edge fs x y}\<^sup>*"
  shows "\<exists>p. findShortestPath (engine us fs) s e =
             Returns (Some \<lparr>path = p, distance = int (length p) - 1\<rparr>) \<and>
           p \<noteq> [] \<and> hd p = s \<and> last p = e \<and> successively (is_edge fs) p \<and>
           (\<forall>q. q \<noteq> [] \<and> hd q = s \<and> last q = e \<and> successively (is_edge fs) q
                \<longrightarrow> length p \<le> length q)"
proof -
  let ?adj = "buildAdjacencyList us fs"
  from reach have r: "(s, e) \<in> (adj_rel ?adj)\<^sup>*" by (simp add: adj_rel_build_valid[OF valid])
  then have w: "\<exists>q. walk ?adj q \<and> hd q = s \<and> last q = e" by (simp add: reach_iff_walk)
  from rtrancl_no_out[OF reach se] obtain z where "is_edge fs s z" by auto
  with valid have sU: "s \<in> user_ids us" by (auto dest: is_edge_present)
  from findShortestPath_ok[OF se, of "engine us fs"] w
  have "found_ok ?adj s e (findShortestPath (engine us fs) s e)" by (simp add: bfs_ok_def)
  then obtain d V par where h: "parent_inv ?adj s d V (map_of par)" "e \<in> V"
    "findShortestPath (engine us fs) s e = path_result (reconstruct par (Some e) [])"
    "\<forall>q. walk ?adj q \<and> hd q = s \<and> last q = e \<longrightarrow> d e + 1 \<le> length q"
    unfolding found_ok_def by blast
  have "v \<in> user_ids us" if "v \<in> V" for v
    using parent_inv_members[OF h(1) that] sU valid
    by (auto simp: neighbors_build_valid dest: is_edge_present)
  with nonempty have "[] \<notin> V" by blast
  from reconstruct_path[OF h(1,2) this, of "[]"]
  obtain p where p: "reconstruct par (Some e) [] = Some p" "walk ?adj p" "hd p = s"
    "last p = e" "length p = d e + 1" by auto
  from p(1) h(3)
  have "findShortestPath (engine us fs) s e = Returns (Some \<lparr>path = p, distance = int (length p) - 1\<rparr>)"
    by (simp add: path_result_def)
  moreover from p(2) have "p \<noteq> []" "successively (is_edge fs) p"
    by (simp_all add: walk_build_valid[OF valid])
  moreover have "\<forall>q. q \<noteq> [] \<and> hd q = s \<and> last q = e \<and> successively (is_edge fs) q
                \<longrightarrow> length p \<le> length q"
    using h(4) p(5) by (simp add: walk_build_valid[OF valid])
  ultimately show ?thesis using p(3,4) by blast
qed

text \<open>
  Claim C1 fails on the code when an id is the empty string. The reconstruction loop
  \<^verbatim>\<open>while (node)\<close> tests truthiness, and the empty string is falsy: with the users
  \<^verbatim>\<open>'a'\<close>, \<^verbatim>\<open>''\<close>, \<^verbatim>\<open>'b'\<close> and the friendships \<^verbatim>\<open>'a'\<close>--\<^verbatim>\<open>''\<close> and \<^verbatim>\<open>''\<close>--\<^verbatim>\<open>'b'\<close>, the
  search from \<^verbatim>\<open>'a'\<close> finds \<^verbatim>\<open>'b'\<close> through \<^verbatim>\<open>''\<close>, the loop stops at the parent \<^verbatim>\<open>''\<close>,
  and the result is the path \<^verbatim>\<open>['b']\<close> with distance 0, which does not begin at the
  start. With the end \<^verbatim>\<open>''\<close> the loop does not run at all: the path is empty and the
  distance is -1.
\<close>

theorem findShortestPath_empty_id_truncated:
  "findShortestPath
     (engine [\<lparr>id_user = ''a'', name = ''A''\<rparr>, \<lparr>id_user = [], name = ''E''\<rparr>,
              \<lparr>id_user = ''b'', name = ''B''\<rparr>]
        [\<lparr>source = ''a'', target = []\<rparr>, \<lparr>source = [], target = ''b''\<rparr>]) ''a'' ''b'' =
     Returns (Some \<lparr>path = [''b''], distance = 0\<rparr>) \<and>
   findShortestPath
     (engine [\<lparr>id_user = ''a'', name = ''A''\<rparr>, \<lparr>id_user = [], name = ''E''\<rparr>,
              \<lparr>id_user = ''b'', name = ''B''\<rparr>]
        [\<lparr>source = ''a'', target = []\<rparr>, \<lparr>source = [], target = ''b''\<rparr>]) ''a'' [] =
     Returns (Some \<lparr>path = [], distance = - 1\<rparr>)"
  by code_simp

section \<open>Connected components by traversal\<close>

text \<open>
  The invariant of \<^verbatim>\<open>dfsVisit\<close> started at \<open>u\<close> with the visited set \<open>V0\<close>: the visited
  ids are those of \<open>V0\<close> and of the community collected so far; the community and the
  stack hold only ids that can be reached from \<open>u\<close>; every neighbor of a collected id is
  visited or on the stack; and \<open>u\<close> is collected or on the stack.
\<close>

definition dfs_inv :: "adjacency \<Rightarrow> string \<Rightarrow> string set \<Rightarrow> string list \<Rightarrow> string list \<Rightarrow> string list \<Rightarrow> bool" where
  "dfs_inv adj u V0 stack vis com \<longleftrightarrow>
     set vis = V0 \<union> set com \<and>
     set com \<subseteq> (adj_rel adj)\<^sup>* `` {u} \<and>
     set stack \<subseteq> (adj_rel adj)\<^sup>* `` {u} \<and>
     (\<forall>c \<in> set com. set (neighbors adj c) \<subseteq> set vis \<union> set stack) \<and>
     u \<in> set com \<union> set stack"

lemma reach_step: "x \<in> (adj_rel adj)\<^sup>* `` {u} \<Longrightarrow> y \<in> set (neighbors adj x) \<Longrightarrow> y \<in> (adj_rel adj)\<^sup>* `` {u}"
  by (auto simp: adj_rel_def intro: rtrancl_into_rtrancl)

lemma dfs_inv_skip:
  assumes "dfs_inv adj u V0 (c # stack) vis com" "c \<in> set vis" "u \<notin> V0"
  shows "dfs_inv adj u V0 stack vis com"
proof -
  from assms(1)[unfolded dfs_inv_def] have v: "set vis = V0 \<union> set com"
    and cr: "set com \<subseteq> (adj_rel adj)\<^sup>* `` {u}"
    and sr: "set (c # stack) \<subseteq> (adj_rel adj)\<^sup>* `` {u}"
    and cl: "\<forall>x \<in> set com. set (neighbors adj x) \<subseteq> set vis \<union> set (c # stack)"
    and uu: "u \<in> set com \<union> set (c # stack)"
    by blast+
  from sr have 3: "set stack \<subseteq> (adj_rel adj)\<^sup>* `` {u}" by simp
  from cl assms(2) have 4: "\<forall>x \<in> set com. set (neighbors adj x) \<subseteq> set vis \<union> set stack"
    by auto
  from uu assms(2,3) v have 5: "u \<in> set com \<union> set stack" by auto
  show ?thesis unfolding dfs_inv_def by (intro conjI v cr 3 4 5)
qed

lemma dfs_inv_visit:
  assumes "dfs_inv adj u V0 (c # stack) vis com" "c \<notin> set vis"
  shows "dfs_inv adj u V0 (push_unvisited (add_Set c vis) (neighbors adj c) stack)
           (add_Set c vis) (com @ [c])"
proof -
  from assms(1)[unfolded dfs_inv_def] have v: "set vis = V0 \<union> set com"
    and cr: "set com \<subseteq> (adj_rel adj)\<^sup>* `` {u}"
    and sr: "set (c # stack) \<subseteq> (adj_rel adj)\<^sup>* `` {u}"
    and cl: "\<forall>x \<in> set com. set (neighbors adj x) \<subseteq> set vis \<union> set (c # stack)"
    and uu: "u \<in> set com \<union> set (c # stack)"
    by blast+
  from sr have c: "c \<in> (adj_rel adj)\<^sup>* `` {u}" by simp
  have 1: "set (add_Set c vis) = V0 \<union> set (com @ [c])" using v by auto
  have 2: "set (com @ [c]) \<subseteq> (adj_rel adj)\<^sup>* `` {u}" using cr c by simp
  have 3: "set (push_unvisited (add_Set c vis) (neighbors adj c) stack) \<subseteq> (adj_rel adj)\<^sup>* `` {u}"
    using sr reach_step[OF c] by (auto simp: set_push_unvisited)
  have 4: "\<forall>x \<in> set (com @ [c]). set (neighbors adj x) \<subseteq>
      set (add_Set c vis) \<union> set (push_unvisited (add_Set c vis) (neighbors adj c) stack)"
  proof
    fix x assume "x \<in> set (com @ [c])"
    then consider "x \<in> set com" | "x = c" by auto
    then show "set (neighbors adj x) \<subseteq>
      set (add_Set c vis) \<union> set (push_unvisited (add_Set c vis) (neighbors adj c) stack)"
    proof cases
      case 1
      with cl have "set (neighbors adj x) \<subseteq> set vis \<union> set (c # stack)" by blast
      then show ?thesis by (auto simp: set_push_unvisited)
    next
      case 2
      then show ?thesis by (auto simp: set_push_unvisited)
    qed
  qed
  have 5: "u \<in> set (com @ [c]) \<union> set (push_unvisited (add_Set c vis) (neighbors adj c) stack)"
    using uu by (auto simp: set_push_unvisited)
  show ?thesis unfolding dfs_inv_def by (intro conjI 1 2 3 4 5)
qed

lemma dfs_loop_inv:
  "dfs_inv adj u V0 stack vis com \<Longrightarrow> u \<notin> V0 \<Longrightarrow>
     (case dfs_loop adj stack vis com of (com', vis') \<Rightarrow> dfs_inv adj u V0 [] vis' com')"
proof (induction adj stack vis com rule: dfs_loop.induct)
  case (1 adj vis community)
  then show ?case by (simp add: dfs_loop.simps)
next
  case (2 adj current stack vis community)
  show ?case
  proof (cases "current \<in> set vis")
    case True
    from "2.IH"(2)[OF _ dfs_inv_skip[OF "2.prems"(1) True "2.prems"(2)] "2.prems"(2)] True
    show ?thesis by (simp add: dfs_loop.simps)
  next
    case False
    from "2.IH"(1)[OF False dfs_inv_visit[OF "2.prems"(1) False] "2.prems"(2)] False
    show ?thesis by (simp add: dfs_loop.simps)
  qed
qed

lemma dfs_inv_final:
  assumes "dfs_inv adj u V0 [] vis com" "V0 \<inter> (adj_rel adj)\<^sup>* `` {u} = {}"
  shows "set com = (adj_rel adj)\<^sup>* `` {u}" "set vis = V0 \<union> set com"
proof -
  from assms(1)[unfolded dfs_inv_def] have v: "set vis = V0 \<union> set com"
    and cr: "set com \<subseteq> (adj_rel adj)\<^sup>* `` {u}"
    and cl: "\<forall>x \<in> set com. set (neighbors adj x) \<subseteq> set vis"
    and uu: "u \<in> set com"
    by auto
  show "set vis = V0 \<union> set com" by (rule v)
  have "y \<in> set com" if "(u, y) \<in> (adj_rel adj)\<^sup>*" for y
    using that
  proof (induction rule: rtrancl_induct)
    case base
    show ?case by (rule uu)
  next
    case (step y z)
    then have zn: "z \<in> set (neighbors adj y)" by (simp add: adj_rel_def)
    with cl step.IH have "z \<in> set vis" by blast
    moreover have "z \<in> (adj_rel adj)\<^sup>* `` {u}" using step.hyps by (auto intro: rtrancl_into_rtrancl)
    ultimately show ?case using v assms(2) by blast
  qed
  with cr show "set com = (adj_rel adj)\<^sup>* `` {u}" by blast
qed

text \<open>
  When nothing that can be reached from \<open>u\<close> is visited yet, \<^verbatim>\<open>dfsVisit\<close> collects exactly
  the ids that can be reached from \<open>u\<close> and adds them to the visited set.
\<close>

lemma dfsVisit_component:
  assumes "dfsVisit adj u vis = (com, vis')" "u \<notin> set vis"
    "set vis \<inter> (adj_rel adj)\<^sup>* `` {u} = {}"
  shows "set com = (adj_rel adj)\<^sup>* `` {u}" "set vis' = set vis \<union> set com"
proof -
  have "dfs_inv adj u (set vis) [u] vis []" by (simp add: dfs_inv_def)
  from dfs_loop_inv[OF this assms(2)] assms(1)
  have "dfs_inv adj u (set vis) [] vis' com" by (simp add: dfsVisit_def)
  from dfs_inv_final[OF this assms(3)]
  show "set com = (adj_rel adj)\<^sup>* `` {u}" "set vis' = set vis \<union> set com" by simp_all
qed

lemma sym_rtrancl_sym: "sym R \<Longrightarrow> (x, y) \<in> R\<^sup>* \<Longrightarrow> (y, x) \<in> R\<^sup>*"
  by (metis sym_rtrancl symD)

lemma closed_rtrancl: "(x, y) \<in> R\<^sup>* \<Longrightarrow> R `` V \<subseteq> V \<Longrightarrow> x \<in> V \<Longrightarrow> y \<in> V"
  by (induction rule: rtrancl_induct) auto

lemma closed_disjoint_component:
  assumes "sym R" "R `` V \<subseteq> V" "u \<notin> V"
  shows "V \<inter> R\<^sup>* `` {u} = {}"
proof (rule ccontr)
  assume "V \<inter> R\<^sup>* `` {u} \<noteq> {}"
  then obtain y where y: "y \<in> V" "(u, y) \<in> R\<^sup>*" by auto
  from sym_rtrancl_sym[OF assms(1) y(2)] have "(y, u) \<in> R\<^sup>*" .
  from closed_rtrancl[OF this assms(2) y(1)] assms(3) show False by simp
qed

lemma closed_union_component: "R `` V \<subseteq> V \<Longrightarrow> R `` (V \<union> R\<^sup>* `` {u}) \<subseteq> V \<union> R\<^sup>* `` {u}"
  by (auto intro: rtrancl_into_rtrancl)

lemma components_disjoint:
  assumes "sym R" "u' \<notin> R\<^sup>* `` {u}"
  shows "R\<^sup>* `` {u} \<inter> R\<^sup>* `` {u'} = {}"
proof (rule ccontr)
  assume "R\<^sup>* `` {u} \<inter> R\<^sup>* `` {u'} \<noteq> {}"
  then obtain z where z: "(u, z) \<in> R\<^sup>*" "(u', z) \<in> R\<^sup>*" by auto
  from sym_rtrancl_sym[OF assms(1) z(2)] z(1) have "(u, u') \<in> R\<^sup>*" by (rule rtrancl_trans[rotated])
  with assms(2) show False by simp
qed

text \<open>
  The loop of \<^verbatim>\<open>findCommunities\<close> on a symmetric index: each community it appends is the
  set of ids reachable from one id of the node list, the appended communities are
  pairwise disjoint, and every id of the node list ends up visited.
\<close>

definition disjoint_members :: "Community \<Rightarrow> Community \<Rightarrow> bool" where
  "disjoint_members a b \<longleftrightarrow> set (users_community a) \<inter> set (users_community b) = {}"

lemma communities_loop_spec:
  assumes "sym (adj_rel adj)" "adj_rel adj `` set vis \<subseteq> set vis"
  shows "\<exists>new. communities_loop adj us vis coms cid = coms @ new \<and>
           (\<forall>c \<in> set new. \<exists>u \<in> user_ids us.
               set (users_community c) = (adj_rel adj)\<^sup>* `` {u} \<and> u \<notin> set vis) \<and>
           sorted_wrt disjoint_members new \<and>
           user_ids us \<subseteq> set vis \<union> (\<Union>c \<in> set new. set (users_community c))"
  using assms(2)
proof (induction us arbitrary: vis coms cid)
  case Nil
  then show ?case by (simp add: user_ids_def)
next
  case (Cons user rest)
  let ?R = "adj_rel adj"
  let ?u = "id_user user"
  show ?case
  proof (cases "?u \<in> set vis")
    case True
    from Cons.IH[OF Cons.prems, of coms cid]
    obtain new where new: "communities_loop adj rest vis coms cid = coms @ new"
      "\<forall>c \<in> set new. \<exists>u \<in> user_ids rest.
          set (users_community c) = ?R\<^sup>* `` {u} \<and> u \<notin> set vis"
      "sorted_wrt disjoint_members new"
      "user_ids rest \<subseteq> set vis \<union> (\<Union>c \<in> set new. set (users_community c))"
      by blast
    have "communities_loop adj (user # rest) vis coms cid = coms @ new"
      using True new(1) by simp
    moreover have "\<forall>c \<in> set new. \<exists>u \<in> user_ids (user # rest).
          set (users_community c) = ?R\<^sup>* `` {u} \<and> u \<notin> set vis"
      using new(2) by (auto simp: user_ids_def)
    moreover have "user_ids (user # rest) \<subseteq> set vis \<union> (\<Union>c \<in> set new. set (users_community c))"
      using new(4) True by (auto simp: user_ids_def)
    ultimately show ?thesis using new(3) by blast
  next
    case False
    obtain com vis' where dv: "dfsVisit adj ?u vis = (com, vis')" by (cases "dfsVisit adj ?u vis")
    from closed_disjoint_component[OF assms(1) Cons.prems False]
    have dis: "set vis \<inter> ?R\<^sup>* `` {?u} = {}" .
    from dfsVisit_component[OF dv False dis]
    have com: "set com = ?R\<^sup>* `` {?u}" and vis': "set vis' = set vis \<union> set com" by simp_all
    from com have ne: "com \<noteq> []" by auto
    let ?c = "\<lparr>id_community = cid, users_community = com,
               color = colors ! (cid mod length colors)\<rparr>"
    have closed': "?R `` set vis' \<subseteq> set vis'"
      unfolding vis' com by (rule closed_union_component[OF Cons.prems])
    from Cons.IH[OF closed', of "coms @ [?c]" "cid + 1"]
    obtain new where new: "communities_loop adj rest vis' (coms @ [?c]) (cid + 1) = (coms @ [?c]) @ new"
      "\<forall>c \<in> set new. \<exists>u \<in> user_ids rest.
          set (users_community c) = ?R\<^sup>* `` {u} \<and> u \<notin> set vis'"
      "sorted_wrt disjoint_members new"
      "user_ids rest \<subseteq> set vis' \<union> (\<Union>c \<in> set new. set (users_community c))"
      by blast
    have 1: "communities_loop adj (user # rest) vis coms cid = coms @ (?c # new)"
      using False dv ne new(1) by simp
    have 2: "\<forall>c \<in> set (?c # new). \<exists>u \<in> user_ids (user # rest).
          set (users_community c) = ?R\<^sup>* `` {u} \<and> u \<notin> set vis"
    proof
      fix c assume "c \<in> set (?c # new)"
      then consider "c = ?c" | "c \<in> set new" by auto
      then show "\<exists>u \<in> user_ids (user # rest).
          set (users_community c) = ?R\<^sup>* `` {u} \<and> u \<notin> set vis"
      proof cases
        case 1
        then show ?thesis using com False by (intro bexI[of _ ?u]) (simp_all add: user_ids_def)
      next
        case 2
        with new(2) obtain u where "u \<in> user_ids rest"
          "set (users_community c) = ?R\<^sup>* `` {u}" "u \<notin> set vis'" by blast
        then show ?thesis using vis' by (intro bexI[of _ u]) (simp_all add: user_ids_def)
      qed
    qed
    have 3: "sorted_wrt disjoint_members (?c # new)"
    proof -
      have "disjoint_members ?c c" if "c \<in> set new" for c
      proof -
        from new(2) that obtain u where u: "set (users_community c) = ?R\<^sup>* `` {u}" "u \<notin> set vis'"
          by blast
        then have "u \<notin> ?R\<^sup>* `` {?u}" using vis' com by simp
        from components_disjoint[OF assms(1) this] u(1) com
        show ?thesis by (simp add: disjoint_members_def)
      qed
      with new(3) show ?thesis by simp
    qed
    have 4: "user_ids (user # rest) \<subseteq> set vis \<union> (\<Union>c \<in> set (?c # new). set (users_community c))"
    proof -
      have "?u \<in> set com" using com by simp
      with new(4) vis' show ?thesis by (auto simp: user_ids_def)
    qed
    from 1 2 3 4 show ?thesis by blast
  qed
qed

lemma sym_is_edge_rel: "sym {(x, y). is_edge fs x y}"
  by (auto simp: sym_def is_edge_sym)


text \<open>The same holds of \<^verbatim>\<open>findCommunities\<close>.\<close>

lemma findCommunities_components:
  assumes "edges_present us fs"
  shows "\<exists>cs. findCommunities (engine us fs) = Returns cs \<and>
           (\<forall>c \<in> set cs. \<exists>u \<in> user_ids us.
               set (users_community c) = {(x, y). is_edge fs x y}\<^sup>* `` {u}) \<and>
           sorted_wrt disjoint_members cs \<and>
           user_ids us \<subseteq> (\<Union>c \<in> set cs. set (users_community c))"
proof -
  let ?adj = "buildAdjacencyList us fs"
  have R: "adj_rel ?adj = {(x, y). is_edge fs x y}" by (rule adj_rel_build_valid[OF assms])
  have s: "sym (adj_rel ?adj)" unfolding R by (rule sym_is_edge_rel)
  from communities_loop_spec[OF s, of "[]" us "[]" 0]
  obtain new where "communities_loop ?adj us [] [] 0 = new"
    "\<forall>c \<in> set new. \<exists>u \<in> user_ids us. set (users_community c) = (adj_rel ?adj)\<^sup>* `` {u}"
    "sorted_wrt disjoint_members new"
    "user_ids us \<subseteq> (\<Union>c \<in> set new. set (users_community c))"
    by auto
  then show ?thesis unfolding R by (simp add: findCommunities_def)
qed

section \<open>Connected components by union-find\<close>








































section \<open>The two community methods\<close>



definition components_of :: "User list \<Rightarrow> Friendship list \<Rightarrow> Community list \<Rightarrow> bool" where
  "components_of us fs cs \<longleftrightarrow>
     (\<forall>c \<in> set cs. \<exists>u \<in> user_ids us.
         set (users_community c) = {(x, y). is_edge fs x y}\<^sup>* `` {u}) \<and>
     sorted_wrt disjoint_members cs \<and>
     user_ids us \<subseteq> (\<Union>c \<in> set cs. set (users_community c))"










section \<open>Adding a friendship\<close>

text \<open>
  Adding one friendship between two ids of the node list: \<^verbatim>\<open>findCommunities\<close> returns no
  more communities than before, and, when no id is the empty string,
  \<^verbatim>\<open>findShortestPath\<close> returns no larger distance between two ids that were connected
  before.
\<close>

lemma distinct_members:
  "sorted_wrt disjoint_members cs \<Longrightarrow> \<forall>c \<in> set cs. users_community c \<noteq> [] \<Longrightarrow>
     distinct (map (\<lambda>c. set (users_community c)) cs)"
proof (induction cs)
  case Nil
  then show ?case by simp
next
  case (Cons c cs)
  have "set (users_community c) \<noteq> set (users_community c')" if "c' \<in> set cs" for c'
  proof
    assume eq: "set (users_community c) = set (users_community c')"
    from Cons.prems(1) that have "set (users_community c) \<inter> set (users_community c') = {}"
      by (simp add: disjoint_members_def)
    with eq have "set (users_community c) = {}" by simp
    with Cons.prems(2) show False by simp
  qed
  with Cons show ?case by auto
qed

lemma components_length:
  assumes valid: "edges_present us fs" and co: "components_of us fs cs"
  shows "length cs = card ((\<lambda>u. {(x, y). is_edge fs x y}\<^sup>* `` {u}) ` user_ids us)"
proof -
  let ?R = "{(x, y). is_edge fs x y}"
  from co[unfolded components_of_def]
  have cm: "\<forall>c \<in> set cs. \<exists>u \<in> user_ids us. set (users_community c) = ?R\<^sup>* `` {u}"
    and dj: "sorted_wrt disjoint_members cs"
    and cv: "user_ids us \<subseteq> (\<Union>c \<in> set cs. set (users_community c))"
    by blast+
  have ne: "\<forall>c \<in> set cs. users_community c \<noteq> []"
  proof
    fix c assume "c \<in> set cs"
    with cm obtain u where "set (users_community c) = ?R\<^sup>* `` {u}" by blast
    then have "u \<in> set (users_community c)" by simp
    then show "users_community c \<noteq> []" by auto
  qed
  have img: "set (map (\<lambda>c. set (users_community c)) cs) = (\<lambda>u. ?R\<^sup>* `` {u}) ` user_ids us"
  proof (intro set_eqI iffI)
    fix A assume "A \<in> set (map (\<lambda>c. set (users_community c)) cs)"
    then obtain c where "c \<in> set cs" "A = set (users_community c)" by auto
    with cm show "A \<in> (\<lambda>u. ?R\<^sup>* `` {u}) ` user_ids us" by blast
  next
    fix A assume "A \<in> (\<lambda>u. ?R\<^sup>* `` {u}) ` user_ids us"
    then obtain u where u: "u \<in> user_ids us" "A = ?R\<^sup>* `` {u}" by blast
    with cv obtain c where c: "c \<in> set cs" "u \<in> set (users_community c)" by blast
    with cm obtain u' where u': "set (users_community c) = ?R\<^sup>* `` {u'}" by blast
    with c(2) have uu: "(u', u) \<in> ?R\<^sup>*" by simp
    from sym_rtrancl_sym[OF sym_is_edge_rel uu] have uu': "(u, u') \<in> ?R\<^sup>*" .
    have "?R\<^sup>* `` {u'} = ?R\<^sup>* `` {u}"
      using uu uu' by (auto intro: rtrancl_trans)
    with u' u(2) c(1) show "A \<in> set (map (\<lambda>c. set (users_community c)) cs)" by auto
  qed
  have "length cs = length (map (\<lambda>c. set (users_community c)) cs)" by simp
  also have "\<dots> = card (set (map (\<lambda>c. set (users_community c)) cs))"
    by (rule distinct_card[symmetric]) (rule distinct_members[OF dj ne])
  finally show ?thesis unfolding img .
qed

lemma is_edge_append: "is_edge fs x y \<Longrightarrow> is_edge (fs @ [f]) x y"
  by (auto simp: is_edge_def)

lemma edges_present_append:
  "edges_present us fs \<Longrightarrow> source f \<in> user_ids us \<Longrightarrow> target f \<in> user_ids us \<Longrightarrow>
     edges_present us (fs @ [f])"
  by (auto simp: edges_present_def)

lemma findCommunities_count_mono:
  assumes valid: "edges_present us fs" and s: "source f \<in> user_ids us" and t: "target f \<in> user_ids us"
  shows "\<exists>cs cs'. findCommunities (engine us fs) = Returns cs \<and>
           findCommunities (engine us (fs @ [f])) = Returns cs' \<and> length cs' \<le> length cs"
proof -
  let ?R = "{(x, y). is_edge fs x y}"
  let ?R' = "{(x, y). is_edge (fs @ [f]) x y}"
  note valid' = edges_present_append[OF valid s t]
  from findCommunities_components[OF valid]
  obtain cs where cs: "findCommunities (engine us fs) = Returns cs" "components_of us fs cs"
    unfolding components_of_def by blast
  from findCommunities_components[OF valid']
  obtain cs' where cs': "findCommunities (engine us (fs @ [f])) = Returns cs'"
    "components_of us (fs @ [f]) cs'"
    unfolding components_of_def by blast
  have sub: "?R\<^sup>* \<subseteq> ?R'\<^sup>*" by (rule rtrancl_mono) (auto intro: is_edge_append)
  have "?R'\<^sup>* `` (?R\<^sup>* `` {u}) = ?R'\<^sup>* `` {u}" for u
  proof (intro set_eqI iffI)
    fix v assume "v \<in> ?R'\<^sup>* `` (?R\<^sup>* `` {u})"
    then obtain w where "(u, w) \<in> ?R\<^sup>*" "(w, v) \<in> ?R'\<^sup>*" by auto
    with sub have "(u, v) \<in> ?R'\<^sup>*" by (meson rtrancl_trans subsetD)
    then show "v \<in> ?R'\<^sup>* `` {u}" by simp
  next
    fix v assume "v \<in> ?R'\<^sup>* `` {u}"
    then show "v \<in> ?R'\<^sup>* `` (?R\<^sup>* `` {u})" by auto
  qed
  then have "(\<lambda>u. ?R'\<^sup>* `` {u}) ` user_ids us = (\<lambda>A. ?R'\<^sup>* `` A) ` (\<lambda>u. ?R\<^sup>* `` {u}) ` user_ids us"
    by (simp add: image_image)
  moreover have "finite ((\<lambda>u. ?R\<^sup>* `` {u}) ` user_ids us)" by (simp add: user_ids_def)
  ultimately have "card ((\<lambda>u. ?R'\<^sup>* `` {u}) ` user_ids us) \<le> card ((\<lambda>u. ?R\<^sup>* `` {u}) ` user_ids us)"
    by (simp add: card_image_le)
  then have "length cs' \<le> length cs"
    unfolding components_length[OF valid cs(2)] components_length[OF valid' cs'(2)] .
  with cs(1) cs'(1) show ?thesis by blast
qed

lemma findShortestPath_distance_mono_nonempty:
  assumes valid: "edges_present us fs" and s: "source f \<in> user_ids us" and t: "target f \<in> user_ids us"
    and nonempty: "[] \<notin> user_ids us"
    and reach: "(a, b) \<in> {(x, y). is_edge fs x y}\<^sup>*"
  shows "\<exists>r r'. findShortestPath (engine us fs) a b = Returns (Some r) \<and>
           findShortestPath (engine us (fs @ [f])) a b = Returns (Some r') \<and>
           distance r' \<le> distance r"
proof (cases "a = b")
  case True
  then show ?thesis by (simp add: findShortestPath_def)
next
  case False
  note valid' = edges_present_append[OF valid s t]
  have "{(x, y). is_edge fs x y}\<^sup>* \<subseteq> {(x, y). is_edge (fs @ [f]) x y}\<^sup>*"
    by (rule rtrancl_mono) (auto intro: is_edge_append)
  with reach have reach': "(a, b) \<in> {(x, y). is_edge (fs @ [f]) x y}\<^sup>*" by blast
  from findShortestPath_shortest_nonempty[OF valid nonempty False reach]
  obtain p where p: "findShortestPath (engine us fs) a b =
             Returns (Some \<lparr>path = p, distance = int (length p) - 1\<rparr>)"
    "p \<noteq> []" "hd p = a" "last p = b" "successively (is_edge fs) p" by blast
  from findShortestPath_shortest_nonempty[OF valid' nonempty False reach']
  obtain p' where p': "findShortestPath (engine us (fs @ [f])) a b =
             Returns (Some \<lparr>path = p', distance = int (length p') - 1\<rparr>)"
    "\<forall>q. q \<noteq> [] \<and> hd q = a \<and> last q = b \<and> successively (is_edge (fs @ [f])) q
                \<longrightarrow> length p' \<le> length q" by blast
  from p(5) have "successively (is_edge (fs @ [f])) p"
    by (rule successively_mono) (auto intro: is_edge_append)
  with p'(2) p(2,3,4) have "length p' \<le> length p" by blast
  with p(1) p'(1) show ?thesis by simp
qed

text \<open>
  Claim C10 fails on the code when an id is the empty string, through the same loop
  condition \<^verbatim>\<open>while (node)\<close> of the path reconstruction. With the users \<^verbatim>\<open>'a'\<close>, \<^verbatim>\<open>''\<close>,
  \<^verbatim>\<open>'b'\<close> and the friendships \<^verbatim>\<open>'a'\<close>--\<^verbatim>\<open>''\<close> and \<^verbatim>\<open>''\<close>--\<^verbatim>\<open>'b'\<close>, the query from \<^verbatim>\<open>'a'\<close> to
  \<^verbatim>\<open>'b'\<close> returns distance 0; after the friendship \<^verbatim>\<open>'a'\<close>--\<^verbatim>\<open>'b'\<close> is added, the same query
  returns the path \<^verbatim>\<open>['a', 'b']\<close> and distance 1, which is larger.
\<close>

theorem findShortestPath_distance_grows_empty_id:
  "findShortestPath
     (engine [\<lparr>id_user = ''a'', name = ''A''\<rparr>, \<lparr>id_user = [], name = ''E''\<rparr>,
              \<lparr>id_user = ''b'', name = ''B''\<rparr>]
        [\<lparr>source = ''a'', target = []\<rparr>, \<lparr>source = [], target = ''b''\<rparr>]) ''a'' ''b'' =
     Returns (Some \<lparr>path = [''b''], distance = 0\<rparr>) \<and>
   findShortestPath
     (engine [\<lparr>id_user = ''a'', name = ''A''\<rparr>, \<lparr>id_user = [], name = ''E''\<rparr>,
              \<lparr>id_user = ''b'', name = ''B''\<rparr>]
        ([\<lparr>source = ''a'', target = []\<rparr>, \<lparr>source = [], target = ''b''\<rparr>] @
         [\<lparr>source = ''a'', target = ''b''\<rparr>])) ''a'' ''b'' =
     Returns (Some \<lparr>path = [''a'', ''b''], distance = 1\<rparr>)"
  by code_simp

end
